theory Spec2Isabelle
  imports Complex_Main "HOL-Library.AList"
begin

section \<open>Strings, dates and the insertion-ordered Map\<close>

text \<open>
  A JavaScript string is modelled as a \<^typ>\<open>string\<close>: the list of its code units, restricted
  to the code units U+0000..U+00FF (one \<^typ>\<open>char\<close> each). The strings that \<open>JSON.parse\<close>
  returns are lists of code units of any value (natural numbers), since an escape \<open>\uXXXX\<close>
  in such a text stands for any code unit.

  A \<open>Date\<close> is its time value: the milliseconds since 1970-01-01T00:00:00Z, an integer.
  Only valid dates are modelled (an invalid \<open>Date\<close> makes \<open>toISOString\<close> raise a RangeError at
  the first line of \<open>summarizeWeek\<close>).
\<close>

type_synonym Date = int

definition msPerDay :: int where
  "msPerDay = 86400000"

text \<open>
  The proleptic Gregorian date (year, month, day) of a day number (days since 1970-01-01), as
  \<open>Date.prototype.toISOString\<close> computes it in UTC: the day number is counted from 0000-03-01,
  split into 400-year eras, centuries, 4-year cycles and years that begin on March 1.
\<close>

definition civil_from_days :: "int \<Rightarrow> int \<times> int \<times> int" where
  "civil_from_days days =
     (let z = days + 719468;
          era = z div 146097;
          doe = z mod 146097;
          c = min 3 (doe div 36524);
          doc = doe - c * 36524;
          q = doc div 1461;
          doq = doc mod 1461;
          yy = min 3 (doq div 365);
          doy = doq - 365 * yy;
          y = 400 * era + 100 * c + 4 * q + yy;
          mp = (5 * doy + 2) div 153;
          d = doy - (153 * mp + 2) div 5 + 1;
          m = (if mp < 10 then mp + 3 else mp - 9)
      in (if m \<le> 2 then y + 1 else y, m, d))"

text \<open>The day number of a Gregorian date (\<open>MakeDay\<close>), the inverse of the above.\<close>

definition days_from_civil :: "int \<Rightarrow> int \<Rightarrow> int \<Rightarrow> int" where
  "days_from_civil y m d =
     (let y' = (if m \<le> 2 then y - 1 else y);
          era = y' div 400;
          yoe = y' mod 400;
          mp = (if m > 2 then m - 3 else m + 9);
          doy = (153 * mp + 2) div 5 + d - 1;
          doe = yoe * 365 + yoe div 4 - yoe div 100 + doy
      in era * 146097 + doe - 719468)"

text \<open>
  The local time zone of the process, as ECMA-262 (21.4.1) reads it: \<open>tzaUTC tz t\<close> is the
  offset of local time from UTC at the time value \<open>t\<close> (\<open>LocalTZA(t, true)\<close>), \<open>tzaLocal tz t\<close>
  the offset by which the local time value \<open>t\<close> is read (\<open>LocalTZA(t, false)\<close>), both in
  milliseconds. A zone without changes of offset has the same constant for both.
\<close>

record TimeZone =
  tzaUTC :: "int \<Rightarrow> int"
  tzaLocal :: "int \<Rightarrow> int"

definition LocalTime :: "TimeZone \<Rightarrow> Date \<Rightarrow> int" where
  "LocalTime tz t = t + tzaUTC tz t"

definition UTC :: "TimeZone \<Rightarrow> int \<Rightarrow> Date" where
  "UTC tz t = t - tzaLocal tz t"

text \<open>\<open>MakeDay\<close>: the day number of the day \<open>dt\<close> of a month (1 to 12), where \<open>dt\<close> may lie outside the month.\<close>

definition MakeDay :: "int \<Rightarrow> int \<Rightarrow> int \<Rightarrow> int" where
  "MakeDay y m dt = days_from_civil y m 1 + dt - 1"

text \<open>\<open>getDate()\<close>: the day of the month in local time.\<close>

definition getDate :: "TimeZone \<Rightarrow> Date \<Rightarrow> int" where
  "getDate tz t = (case civil_from_days (LocalTime tz t div msPerDay) of (y, m, d) \<Rightarrow> d)"

text \<open>
  \<open>setDate(dt)\<close>: the local year, month and time within the day are kept, the day of the
  month becomes \<open>dt\<close>, and the local time so made is read back as a time value.
\<close>

definition setDate :: "TimeZone \<Rightarrow> Date \<Rightarrow> int \<Rightarrow> Date" where
  "setDate tz t dt =
     (case civil_from_days (LocalTime tz t div msPerDay) of (y, m, d) \<Rightarrow>
        UTC tz (MakeDay y m dt * msPerDay + LocalTime tz t mod msPerDay))"

text \<open>\<open>const x = new Date(d); x.setDate(x.getDate() + i)\<close>: the date \<open>i\<close> local calendar days later.\<close>

definition addDays :: "TimeZone \<Rightarrow> Date \<Rightarrow> int \<Rightarrow> Date" where
  "addDays tz d i = setDate tz d (getDate tz d + i)"

definition digit_char :: "nat \<Rightarrow> char" where
  "digit_char n = ''0123456789'' ! (n mod 10)"

text \<open>\<open>String(n)\<close> for a non-negative integer: its decimal digits.\<close>

fun show_nat :: "nat \<Rightarrow> string" where
  "show_nat n = (if n < 10 then [digit_char n] else show_nat (n div 10) @ [digit_char n])"

declare show_nat.simps [simp del]

text \<open>\<open>padStart(w, '0')\<close> of the decimal digits.\<close>

definition pad_nat :: "nat \<Rightarrow> nat \<Rightarrow> string" where
  "pad_nat w n = replicate (w - length (show_nat n)) (CHR ''0'') @ show_nat n"

text \<open>
  \<open>date.toISOString().split('T')[0]\<close>: the UTC calendar date, \<open>YYYY-MM-DD\<close> for the years
  0..9999 and a sign with six digits for the year otherwise.
\<close>

definition toISODate :: "Date \<Rightarrow> string" where
  "toISODate t =
     (case civil_from_days (t div msPerDay) of (y, m, d) \<Rightarrow>
        (if 0 \<le> y \<and> y \<le> 9999 then pad_nat 4 (nat y)
         else (if y < 0 then ''-'' else ''+'') @ pad_nat 6 (nat \<bar>y\<bar>))
        @ ''-'' @ pad_nat 2 (nat m) @ ''-'' @ pad_nat 2 (nat d))"

text \<open>
  A JavaScript \<open>Map\<close> with string keys: an association list in insertion order with distinct
  keys. \<open>set\<close> replaces the value of a key in place or appends a new key at the end.
\<close>

type_synonym 'v Map = "(string \<times> 'v) list"

definition Map_has :: "'v Map \<Rightarrow> string \<Rightarrow> bool" where
  "Map_has m k = (map_of m k \<noteq> None)"

definition Map_get :: "'v Map \<Rightarrow> string \<Rightarrow> 'v option" where
  "Map_get m k = map_of m k"

definition Map_set :: "string \<Rightarrow> 'v \<Rightarrow> 'v Map \<Rightarrow> 'v Map" where
  "Map_set k v m = AList.update k v m"

definition Map_delete :: "string \<Rightarrow> 'v Map \<Rightarrow> 'v Map" where
  "Map_delete k m = AList.delete k m"

definition Map_values :: "'v Map \<Rightarrow> 'v list" where
  "Map_values m = map snd m"

section \<open>The data model\<close>

record JournalEntry =
  id_entry :: string
  userId :: string
  date :: Date
  gratitude :: string
  didToday :: string
  proudOf :: string
  tomorrowPlan :: string
  rating :: int

text \<open>
  The fields of a \<open>WeeklySummary\<close> carry the prefix \<open>ws_\<close>. Its summary and focus are strings that
  the parser returned: lists of code units. A number is an exact rational.
\<close>

record WeeklySummary =
  ws_userId :: string
  ws_weekStart :: Date
  ws_weekEnd :: Date
  ws_entryCount :: nat
  ws_avgRating :: rat
  ws_missingDays :: "string list"
  ws_summary :: "nat list"
  ws_focus :: "nat list"
  ws_sourceEntryIds :: "string list"
  ws_generatedAt :: Date

datatype PromptVariant = Base | Compressed | Strict | Actionable

record JournalEntries =
  entries :: "JournalEntry Map"
  weeklySummaries :: "WeeklySummary Map"
  nextId :: nat

text \<open>The argument \<open>updates\<close> of \<open>editEntry\<close>: each field is given or \<open>undefined\<close>.\<close>

record EntryUpdates =
  u_gratitude :: "string option"
  u_didToday :: "string option"
  u_proudOf :: "string option"
  u_tomorrowPlan :: "string option"
  u_rating :: "int option"

text \<open>Every \<open>throw\<close> of the class, one constructor per throw site.\<close>

datatype error =
    RatingError
  | EntryExists
  | EntryNotFound
  | NoEntriesError
  | TransportError
  | ParseError_NoJSON
  | ParseError_InvalidJSON
  | ParseError_Missing
  | ParseError_NotStrings
  | ShapeError_ExtraKeys "string list"
  | ShapeError_EmptySummary
  | ShapeError_EmptyFocus
  | ShapeError_SummaryWords nat
  | ShapeError_FocusWords nat
  | WindowError_URL
  | WindowError_Date string
  | ActionabilityError_NoVerb
  | ActionabilityError_NoTimebox

section \<open>Entries: create, edit, delete\<close>

definition getDateKey :: "string \<Rightarrow> Date \<Rightarrow> string" where
  "getDateKey uid d = uid @ '':'' @ toISODate d"

definition getWeeklySummaryKey :: "string \<Rightarrow> Date \<Rightarrow> string" where
  "getWeeklySummaryKey uid ws = uid @ '':'' @ toISODate ws"

definition validRating :: "int \<Rightarrow> bool" where
  "validRating r = (r \<in> set [-2, -1, 0, 1, 2])"

definition findEntryById :: "JournalEntries \<Rightarrow> string \<Rightarrow> JournalEntry option" where
  "findEntryById s entryId = find (\<lambda>e. id_entry e = entryId) (Map_values (entries s))"

definition createEntry ::
  "JournalEntries \<Rightarrow> string \<Rightarrow> Date \<Rightarrow> string \<Rightarrow> string \<Rightarrow> string \<Rightarrow> string \<Rightarrow> int
     \<Rightarrow> JournalEntries \<times> (error + JournalEntry)" where
  "createEntry s uid d g dt p tp r =
     (if \<not> validRating r then (s, Inl RatingError)
      else let dateKey = getDateKey uid d in
        if Map_has (entries s) dateKey then (s, Inl EntryExists)
        else let entry = \<lparr> id_entry = ''entry-'' @ show_nat (nextId s), userId = uid, date = d,
                             gratitude = g, didToday = dt, proudOf = p, tomorrowPlan = tp,
                             rating = r \<rparr>
             in (s\<lparr> entries := Map_set dateKey entry (entries s), nextId := nextId s + 1 \<rparr>,
                 Inr entry))"

text \<open>The assignments of \<open>editEntry\<close> to the fields of the entry it found.\<close>

definition applyUpdates :: "EntryUpdates \<Rightarrow> JournalEntry \<Rightarrow> JournalEntry" where
  "applyUpdates u e =
     (let e1 = (case u_gratitude u of None \<Rightarrow> e | Some v \<Rightarrow> e\<lparr> gratitude := v \<rparr>);
          e2 = (case u_didToday u of None \<Rightarrow> e1 | Some v \<Rightarrow> e1\<lparr> didToday := v \<rparr>);
          e3 = (case u_proudOf u of None \<Rightarrow> e2 | Some v \<Rightarrow> e2\<lparr> proudOf := v \<rparr>);
          e4 = (case u_tomorrowPlan u of None \<Rightarrow> e3 | Some v \<Rightarrow> e3\<lparr> tomorrowPlan := v \<rparr>)
      in (case u_rating u of None \<Rightarrow> e4 | Some v \<Rightarrow> e4\<lparr> rating := v \<rparr>))"

text \<open>
  \<open>findEntryById\<close> returns the entry object held by the Map, the first in insertion order
  with the identifier; assigning to its fields changes the Map's value at that place.
\<close>

fun updateFirst :: "('v \<Rightarrow> bool) \<Rightarrow> ('v \<Rightarrow> 'v) \<Rightarrow> 'v Map \<Rightarrow> 'v Map" where
  "updateFirst P f [] = []"
| "updateFirst P f ((k, v) # m) = (if P v then (k, f v) # m else (k, v) # updateFirst P f m)"

definition editEntry ::
  "JournalEntries \<Rightarrow> string \<Rightarrow> EntryUpdates \<Rightarrow> JournalEntries \<times> (error + JournalEntry)" where
  "editEntry s entryId u =
     (case findEntryById s entryId of
        None \<Rightarrow> (s, Inl EntryNotFound)
      | Some entry \<Rightarrow>
          (case u_rating u of
             Some r \<Rightarrow>
               if \<not> validRating r then (s, Inl RatingError)
               else (s\<lparr> entries := updateFirst (\<lambda>e. id_entry e = entryId) (applyUpdates u) (entries s) \<rparr>,
                     Inr (applyUpdates u entry))
           | None \<Rightarrow>
               (s\<lparr> entries := updateFirst (\<lambda>e. id_entry e = entryId) (applyUpdates u) (entries s) \<rparr>,
                Inr (applyUpdates u entry))))"

definition deleteEntry :: "JournalEntries \<Rightarrow> string \<Rightarrow> JournalEntries \<times> (error + unit)" where
  "deleteEntry s entryId =
     (case findEntryById s entryId of
        None \<Rightarrow> (s, Inl EntryNotFound)
      | Some entry \<Rightarrow>
          (s\<lparr> entries := Map_delete (getDateKey (userId entry) (date entry)) (entries s) \<rparr>,
           Inr ()))"

text \<open>At most one entry per (user, calendar date).\<close>

definition one_entry_per_user_date :: "JournalEntries \<Rightarrow> bool" where
  "one_entry_per_user_date s =
     distinct (map (\<lambda>e. (userId e, toISODate (date e))) (Map_values (entries s)))"

section \<open>Characters and regular expressions\<close>

definition inRange :: "char \<Rightarrow> nat \<Rightarrow> nat \<Rightarrow> bool" where
  "inRange c lo hi = (lo \<le> of_char c \<and> (of_char c :: nat) \<le> hi)"

text \<open>The classes \<open>\d\<close>, \<open>\w\<close> and \<open>\s\<close> (the white space and line terminators below U+0100).\<close>

definition isDigit :: "char \<Rightarrow> bool" where
  "isDigit c = inRange c 48 57"

definition isWordChar :: "char \<Rightarrow> bool" where
  "isWordChar c = (inRange c 97 122 \<or> inRange c 65 90 \<or> inRange c 48 57 \<or> c = CHR ''_'')"

definition isSpace :: "char \<Rightarrow> bool" where
  "isSpace c = (inRange c 9 13 \<or> c = CHR '' '' \<or> c = CHR 0xA0)"

text \<open>\<open>toLowerCase\<close> on the code units below U+0100: A-Z and the capital letters U+00C0..U+00DE.\<close>

definition toLowerCase_char :: "char \<Rightarrow> char" where
  "toLowerCase_char c =
     (if inRange c 65 90 \<or> (inRange c 192 222 \<and> c \<noteq> CHR 0xD7)
      then char_of (of_char c + (32::nat)) else c)"

definition toLowerCase :: "string \<Rightarrow> string" where
  "toLowerCase s = map toLowerCase_char s"

definition trim :: "string \<Rightarrow> string" where
  "trim s = rev (dropWhile isSpace (rev (dropWhile isSpace s)))"

text \<open>
  A regular expression is a backtracking matcher. A state is a position in the input: the
  input before it, reversed, and the input after it. A matcher maps a state to the states
  where a match that starts there can end, in the order in which backtracking tries them,
  so that the head of the list is the match that \<open>exec\<close> returns.
\<close>

type_synonym rstate = "string \<times> string"
type_synonym matcher = "rstate \<Rightarrow> rstate list"

definition cls :: "(char \<Rightarrow> bool) \<Rightarrow> matcher" where
  "cls P st = (case snd st of [] \<Rightarrow> [] | c # r \<Rightarrow> if P c then [(c # fst st, r)] else [])"

definition chr :: "char \<Rightarrow> matcher" where
  "chr x = cls (\<lambda>c. c = x)"

text \<open>A pattern character under the flag \<open>i\<close>.\<close>

definition chr_i :: "char \<Rightarrow> matcher" where
  "chr_i x = cls (\<lambda>c. toLowerCase_char c = toLowerCase_char x)"

definition eps :: matcher where
  "eps st = [st]"

definition seq :: "matcher \<Rightarrow> matcher \<Rightarrow> matcher" where
  "seq m1 m2 st = concat (map m2 (m1 st))"

definition alt :: "matcher \<Rightarrow> matcher \<Rightarrow> matcher" where
  "alt m1 m2 st = m1 st @ m2 st"

text \<open>The greedy quantifiers \<open>?\<close>, \<open>*\<close> (an iteration that consumes nothing is rejected) and \<open>+\<close>.\<close>

definition opt :: "matcher \<Rightarrow> matcher" where
  "opt m st = m st @ [st]"

function star :: "matcher \<Rightarrow> matcher" where
  "star m st =
     concat (map (\<lambda>st'. if length (snd st') < length (snd st) then star m st' else []) (m st))
     @ [st]"
  by pat_completeness auto
termination
  by (relation "measure (\<lambda>(m, st). length (snd st))") auto

declare star.simps [simp del]

definition plus :: "matcher \<Rightarrow> matcher" where
  "plus m = seq m (star m)"

fun rep :: "nat \<Rightarrow> matcher \<Rightarrow> matcher" where
  "rep 0 m = eps"
| "rep (Suc n) m = seq m (rep n m)"

definition seqs :: "matcher list \<Rightarrow> matcher" where
  "seqs ms = foldr seq ms eps"

definition lit_i :: "string \<Rightarrow> matcher" where
  "lit_i w = seqs (map chr_i w)"

text \<open>The assertion \<open>\b\<close>: exactly one of the characters around the position is a word character.\<close>

definition isWordHd :: "string \<Rightarrow> bool" where
  "isWordHd s = (case s of [] \<Rightarrow> False | c # _ \<Rightarrow> isWordChar c)"

definition wordb :: matcher where
  "wordb st = (if isWordHd (fst st) \<noteq> isWordHd (snd st) then [st] else [])"

text \<open>
  \<open>exec\<close> without the flag \<open>g\<close>: the leftmost position where the matcher succeeds, with the
  first end state there; \<open>matched\<close> is the text between the two.
\<close>

fun exec_from :: "matcher \<Rightarrow> string \<Rightarrow> string \<Rightarrow> (rstate \<times> rstate) option" where
  "exec_from m b [] = (case m (b, []) of [] \<Rightarrow> None | r # _ \<Rightarrow> Some ((b, []), r))"
| "exec_from m b (c # a) =
     (case m (b, c # a) of [] \<Rightarrow> exec_from m (c # b) a | r # _ \<Rightarrow> Some ((b, c # a), r))"

definition matched :: "rstate \<times> rstate \<Rightarrow> string" where
  "matched se = take (length (fst (snd se)) - length (fst (fst se))) (snd (fst se))"

definition test :: "matcher \<Rightarrow> string \<Rightarrow> bool" where
  "test m s = (exec_from m [] s \<noteq> None)"

definition match_first :: "matcher \<Rightarrow> string \<Rightarrow> string option" where
  "match_first m s = map_option matched (exec_from m [] s)"

section \<open>The validators\<close>

text \<open>
  A value of type \<open>{ summary: string; focus: string }\<close>: the two strings, and the names of the
  other own enumerable properties the object has at run time. The validators are modelled
  on strings of code units up to U+00FF, an \<open>LLMResult\<close>; the parser returns strings of any
  code units, a \<open>ParsedResult\<close>.
\<close>

record 'c LLMOutput =
  summary :: "'c list"
  focus :: "'c list"
  otherKeys :: "string list"

type_synonym LLMResult = "char LLMOutput"
type_synonym ParsedResult = "nat LLMOutput"

definition imperativeVerbs :: "string list" where
  "imperativeVerbs = [''schedule'', ''plan'', ''block'', ''review'', ''write'', ''read'',
     ''practice'', ''prepare'', ''email'', ''call'', ''draft'', ''set'']"

text \<open>\<open>new RegExp(`\\b${verb}\\b`, 'i')\<close>\<close>

definition verbPattern :: "string \<Rightarrow> matcher" where
  "verbPattern verb = seqs [wordb, lit_i verb, wordb]"

text \<open>
  \<open>/\b\d+\s?(min|minutes?|hours?)\b|\bdaily\b|\bweekly\b|\bmorning\b|\bevening\b/i\<close>, with
  the group \<open>(min|minutes?|hours?)\<close> named.
\<close>

definition unitGroup :: matcher where
  "unitGroup = alt (lit_i ''min'')
                  (alt (seq (lit_i ''minute'') (opt (chr_i CHR ''s'')))
                       (seq (lit_i ''hour'') (opt (chr_i CHR ''s''))))"

definition timeboxPattern :: matcher where
  "timeboxPattern =
     alt (seqs [wordb, plus (cls isDigit), opt (cls isSpace), unitGroup, wordb])
    (alt (seqs [wordb, lit_i ''daily'', wordb])
    (alt (seqs [wordb, lit_i ''weekly'', wordb])
    (alt (seqs [wordb, lit_i ''morning'', wordb])
         (seqs [wordb, lit_i ''evening'', wordb]))))"

definition validateV3_Actionability :: "LLMResult \<Rightarrow> error + unit" where
  "validateV3_Actionability r =
     (let focusLower = toLowerCase (focus r);
          hasImperative = list_ex (\<lambda>verb. test (verbPattern verb) focusLower) imperativeVerbs
      in if \<not> hasImperative then Inl ActionabilityError_NoVerb
         else if \<not> test timeboxPattern (focus r) then Inl ActionabilityError_NoTimebox
         else Inr ())"

section \<open>The claims' notions, stated on strings\<close>

text \<open>
  A whole-word occurrence of the lower-case word \<open>w\<close> in \<open>s\<close>, in any letter case: \<open>s\<close> is
  \<open>pre @ u @ post\<close> where \<open>u\<close> is \<open>w\<close> up to case, \<open>pre\<close> does not end with a word character
  and \<open>post\<close> does not begin with one.
\<close>
definition occurs_word_ci :: "string \<Rightarrow> string \<Rightarrow> bool" where
  "occurs_word_ci w s =
     (\<exists>pre u post. s = pre @ u @ post \<and> toLowerCase u = w \<and>
        \<not> isWordHd (rev pre) \<and> \<not> isWordHd post)"

text \<open>
  A numeric duration in one of the \<open>units\<close>: digits, at most one white space character, and
  a unit in any letter case, delimited as a whole word.
\<close>
definition occurs_duration :: "string list \<Rightarrow> string \<Rightarrow> bool" where
  "occurs_duration units s =
     (\<exists>pre ds sp u post. s = pre @ ds @ sp @ u @ post \<and>
        ds \<noteq> [] \<and> list_all isDigit ds \<and> length sp \<le> 1 \<and> list_all isSpace sp \<and>
        toLowerCase u \<in> set units \<and> \<not> isWordHd (rev pre) \<and> \<not> isWordHd post)"

definition unitWords :: "string list" where
  "unitWords = [''min'', ''minute'', ''minutes'', ''hour'', ''hours'']"

text \<open>The units as the claim lists them.\<close>

definition claimedUnitWords :: "string list" where
  "claimedUnitWords = [''min'', ''minutes'', ''hour'', ''hours'']"
definition frequencyWords :: "string list" where
  "frequencyWords = [''daily'', ''weekly'', ''morning'', ''evening'']"
definition actionable :: "string list \<Rightarrow> string \<Rightarrow> bool" where
  "actionable units f =
     ((\<exists>v \<in> set imperativeVerbs. occurs_word_ci v f) \<and>
      (occurs_duration units f \<or> (\<exists>w \<in> set frequencyWords. occurs_word_ci w f)))"

text \<open>The alternation of a list of words under the flag \<open>i\<close>, to decide \<open>occurs_duration\<close>.\<close>
definition unitsPattern :: "string list \<Rightarrow> matcher" where
  "unitsPattern units = foldr alt (map lit_i units) (\<lambda>st. [])"
definition lower_word :: "string \<Rightarrow> bool" where
  "lower_word w = (w \<noteq> [] \<and> toLowerCase w = w \<and> isWordChar (hd w) \<and> isWordChar (last w))"

section \<open>V1 and V2\<close>

text \<open>
  \<open>String.prototype.split\<close> with a regular expression: the separator is tried at every
  position \<open>q\<close> from the start \<open>p\<close> of the current piece \<open>cur\<close>; a match cuts the piece and
  the next piece starts at its end. (A separator that matches the empty string is not
  modelled: an empty match counts as no match.)
\<close>

function split_loop :: "matcher \<Rightarrow> string \<Rightarrow> string \<Rightarrow> string \<Rightarrow> string list" where
  "split_loop m b [] cur = [cur]"
| "split_loop m b (c # a) cur =
     (case m (b, c # a) of
        [] \<Rightarrow> split_loop m (c # b) a (cur @ [c])
      | e # _ \<Rightarrow>
          if length (snd e) < length (c # a) then cur # split_loop m (fst e) (snd e) []
          else split_loop m (c # b) a (cur @ [c]))"
  by pat_completeness auto
termination
  by (relation "measure (\<lambda>(m, b, rest, cur). length rest)") auto

definition split :: "matcher \<Rightarrow> string \<Rightarrow> string list" where
  "split m s = split_loop m [] s []"

text \<open>\<open>/\s+/\<close>\<close>

definition wsPattern :: matcher where
  "wsPattern = plus (cls isSpace)"

definition allowedKeys :: "string list" where
  "allowedKeys = [''summary'', ''focus'']"

text \<open>
  \<open>Object.keys(result)\<close> are summary, focus and the other keys; the word counts are
  \<open>result.summary.trim().split(/\s+/).length\<close>.
\<close>

definition validateV1_ShapeAndLimits :: "LLMResult \<Rightarrow> error + unit" where
  "validateV1_ShapeAndLimits r =
     (let keys = ''summary'' # ''focus'' # otherKeys r;
          extraKeys = filter (\<lambda>k. k \<notin> set allowedKeys) keys
      in if length extraKeys > 0 then Inl (ShapeError_ExtraKeys extraKeys)
         else if summary r = [] \<or> length (trim (summary r)) = 0 then Inl ShapeError_EmptySummary
         else if focus r = [] \<or> length (trim (focus r)) = 0 then Inl ShapeError_EmptyFocus
         else let summaryWords = length (split wsPattern (trim (summary r)));
                  focusWords = length (split wsPattern (trim (focus r)))
              in if summaryWords > 120 then Inl (ShapeError_SummaryWords summaryWords)
                 else if focusWords > 60 then Inl (ShapeError_FocusWords focusWords)
                 else Inr ())"

text \<open>The whitespace-delimited words of a string: its maximal runs without white space.\<close>

fun ws_words_acc :: "string \<Rightarrow> string \<Rightarrow> string list" where
  "ws_words_acc cur [] = (if cur = [] then [] else [cur])"
| "ws_words_acc cur (c # s) =
     (if isSpace c then (if cur = [] then ws_words_acc [] s else cur # ws_words_acc [] s)
      else ws_words_acc (cur @ [c]) s)"

definition ws_words :: "string \<Rightarrow> string list" where
  "ws_words s = ws_words_acc [] s"

text \<open>Empty after trimming: every character is white space.\<close>

definition blank :: "string \<Rightarrow> bool" where
  "blank s = list_all isSpace s"

text \<open>The position that \<open>exec_from\<close> finds lies in the input (for the termination below).\<close>

lemma exec_from_Some_length:
  "exec_from m b a = Some (st, en) \<Longrightarrow> length (snd st) \<le> length a"
proof (induction a arbitrary: b)
  case Nil
  then show ?case by (auto split: list.splits)
next
  case (Cons c a)
  show ?case
  proof (cases "m (b, c # a)")
    case Nil
    with Cons.prems have "exec_from m (c # b) a = Some (st, en)" by simp
    from Cons.IH [OF this] show ?thesis by simp
  next
    case (Cons r rs)
    with Cons.prems show ?thesis by auto
  qed
qed

lemma lower_url_parts:
  "toLowerCase ''http'' = ''http''" "toLowerCase ''://'' = ''://''"
  "toLowerCase ''https'' = ''https''" "toLowerCase ''http://'' = ''http://''"
  "toLowerCase ''https://'' = ''https://''"
  by (simp_all add: toLowerCase_def toLowerCase_char_def inRange_def)

text \<open>
  \<open>String.prototype.match\<close> with the flag \<open>g\<close>: every match, each search starting where the
  previous match ended (one character further after an empty match).
\<close>

function match_all_from :: "matcher \<Rightarrow> string \<Rightarrow> string \<Rightarrow> string list" where
  "match_all_from m b a =
     (case exec_from m b a of
        None \<Rightarrow> []
      | Some se \<Rightarrow>
          matched se #
            (if length (snd (snd se)) < length (snd (fst se))
             then match_all_from m (fst (snd se)) (snd (snd se))
             else (case snd (fst se) of
                     [] \<Rightarrow> []
                   | c # a' \<Rightarrow> match_all_from m (c # fst (fst se)) a')))"
  by pat_completeness auto
termination
proof (relation "measure (\<lambda>(m, b, a). length a)")
  show "wf (measure (\<lambda>(m, b, a). length a))" by simp
next
  fix m b a se
  assume "exec_from m b a = Some se" "length (snd (snd se)) < length (snd (fst se))"
  with exec_from_Some_length [of m b a "fst se" "snd se"]
  show "((m, fst (snd se), snd (snd se)), m, b, a) \<in> measure (\<lambda>(m, b, a). length a)"
    by (simp add: split_beta)
next
  fix m b a se c a'
  assume "exec_from m b a = Some se" "snd (fst se) = c # a'"
  with exec_from_Some_length [of m b a "fst se" "snd se"]
  show "((m, c # fst (fst se), a'), m, b, a) \<in> measure (\<lambda>(m, b, a). length a)"
    by (simp add: split_beta)
qed

declare match_all_from.simps [simp del]

definition match_all :: "matcher \<Rightarrow> string \<Rightarrow> string list" where
  "match_all m s = match_all_from m [] s"

text \<open>\<open>/https?:\/\//i\<close>\<close>

definition urlPattern :: matcher where
  "urlPattern = seqs [lit_i ''http'', opt (chr_i CHR ''s''), lit_i ''://'']"

text \<open>\<open>/\b\d{4}-\d{2}-\d{2}\b/g\<close>\<close>

definition isoDatePattern :: matcher where
  "isoDatePattern =
     seqs [wordb, rep 4 (cls isDigit), chr CHR ''-'', rep 2 (cls isDigit), chr CHR ''-'',
           rep 2 (cls isDigit), wordb]"

definition digit_val :: "char \<Rightarrow> int" where
  "digit_val c = int (of_char c) - 48"

fun digits_val :: "int \<Rightarrow> string \<Rightarrow> int" where
  "digits_val acc [] = acc"
| "digits_val acc (c # s) = digits_val (10 * acc + digit_val c) s"

text \<open>
  \<open>new Date(dateStr)\<close> for a string of the form \<open>dddd-dd-dd\<close>, as V8 (Node.js) reads it. With a
  month from 01 to 12 and a day from 01 to 31 the string is an ISO date: midnight UTC of
  that day of the month, counted on into the next month when the month is shorter
  (\<open>2025-02-30\<close> is March 2). Otherwise the three numbers go to the legacy reader: a first
  number from 1 to 31 is not taken for a year, the numbers are read as month, day and
  two-digit year (00 to 49 in 2000, 50 to 99 in 1900), and the date is midnight in local
  time; a first number that can only be a year leaves \<open>NaN\<close>, an invalid date (\<open>None\<close>).
\<close>

definition parseISODate :: "TimeZone \<Rightarrow> string \<Rightarrow> Date option" where
  "parseISODate tz s =
     (let y = digits_val 0 (take 4 s);
          m = digits_val 0 (take 2 (drop 5 s));
          d = digits_val 0 (take 2 (drop 8 s))
      in if 1 \<le> m \<and> m \<le> 12 \<and> 1 \<le> d \<and> d \<le> 31
         then Some (MakeDay y m d * msPerDay)
         else if 1 \<le> y \<and> y \<le> 12 \<and> 1 \<le> m \<and> m \<le> 31
         then Some (UTC tz (MakeDay (if d \<le> 49 then 2000 + d else 1900 + d) y m * msPerDay))
         else None)"

text \<open>
  The loop over the matches: a date compares as its time value, and every comparison with
  an invalid date is false.
\<close>

fun checkDates :: "TimeZone \<Rightarrow> string list \<Rightarrow> Date \<Rightarrow> Date \<Rightarrow> error + unit" where
  "checkDates tz [] weekStart weekEnd = Inr ()"
| "checkDates tz (dateStr # rest) weekStart weekEnd =
     (case parseISODate tz dateStr of
        None \<Rightarrow> checkDates tz rest weekStart weekEnd
      | Some t \<Rightarrow>
          if t < weekStart \<or> t > weekEnd then Inl (WindowError_Date dateStr)
          else checkDates tz rest weekStart weekEnd)"

definition combinedText :: "LLMResult \<Rightarrow> string" where
  "combinedText r = summary r @ '' '' @ focus r"

definition validateV2_WindowAndLinks :: "TimeZone \<Rightarrow> LLMResult \<Rightarrow> Date \<Rightarrow> error + unit" where
  "validateV2_WindowAndLinks tz r weekStart =
     (let weekEnd = addDays tz weekStart 6
      in if test urlPattern (combinedText r) then Inl WindowError_URL
         else checkDates tz (match_all isoDatePattern (combinedText r)) weekStart weekEnd)"

definition validateLLMOutput :: "TimeZone \<Rightarrow> LLMResult \<Rightarrow> Date \<Rightarrow> error + unit" where
  "validateLLMOutput tz r weekStart =
     (case validateV1_ShapeAndLimits r of
        Inl e \<Rightarrow> Inl e
      | Inr _ \<Rightarrow>
          (case validateV2_WindowAndLinks tz r weekStart of
             Inl e \<Rightarrow> Inl e
           | Inr _ \<Rightarrow> validateV3_Actionability r))"

text \<open>The text contains \<open>http://\<close> or \<open>https://\<close>, in any letter case.\<close>

definition contains_url :: "string \<Rightarrow> bool" where
  "contains_url s =
     (\<exists>pre u post. s = pre @ u @ post \<and> toLowerCase u \<in> {''http://'', ''https://''})"

text \<open>A date token: \<open>dddd-dd-dd\<close>, not preceded and not followed by a word character.\<close>

definition iso_shape :: "string \<Rightarrow> bool" where
  "iso_shape t =
     (\<exists>d0 d1 d2 d3 d4 d5 d6 d7.
        t = [d0, d1, d2, d3, CHR ''-'', d4, d5, CHR ''-'', d6, d7] \<and>
        list_all isDigit [d0, d1, d2, d3, d4, d5, d6, d7])"


section \<open>JSON.parse and the parser of the response\<close>

text \<open>
  The values of \<open>JSON.parse\<close>. A string is the list of its code units; a number is the exact
  value of its literal (JavaScript rounds it to a double; the code reads of a number only
  whether it is zero); an object keeps its members in the order of the text (a repeated key
  reads as its last member).
\<close>

type_synonym ustring = "nat list"

text \<open>The code units of a string of the model.\<close>

definition ustr :: "string \<Rightarrow> ustring" where
  "ustr s = map of_char s"

datatype json =
    JNull
  | JBool bool
  | JNumber rat
  | JString ustring
  | JArray "json list"
  | JObject "(ustring \<times> json) list"

definition isJsonWs :: "char \<Rightarrow> bool" where
  "isJsonWs c = (c = CHR '' '' \<or> c = CHR 0x09 \<or> c = CHR 0x0A \<or> c = CHR 0x0D)"

definition skip_ws :: "string \<Rightarrow> string" where
  "skip_ws s = dropWhile isJsonWs s"

definition hex_val :: "char \<Rightarrow> nat option" where
  "hex_val c =
     (if inRange c 48 57 then Some (of_char c - 48)
      else if inRange c 97 102 then Some (of_char c - 87)
      else if inRange c 65 70 then Some (of_char c - 55)
      else None)"

text \<open>\<open>\uXXXX\<close>: the code unit with the four hexadecimal digits.\<close>

definition hex4 :: "char \<Rightarrow> char \<Rightarrow> char \<Rightarrow> char \<Rightarrow> nat option" where
  "hex4 a b c d =
     (case (hex_val a, hex_val b, hex_val c, hex_val d) of
        (Some x, Some y, Some z, Some w) \<Rightarrow> Some (((x * 16 + y) * 16 + z) * 16 + w)
      | _ \<Rightarrow> None)"

definition escape_char :: "char \<Rightarrow> nat option" where
  "escape_char e =
     (if e = CHR 0x22 \<or> e = CHR 0x5C \<or> e = CHR ''/'' then Some (of_char e)
      else if e = CHR ''b'' then Some 8
      else if e = CHR ''f'' then Some 12
      else if e = CHR ''n'' then Some 10
      else if e = CHR ''r'' then Some 13
      else if e = CHR ''t'' then Some 9
      else None)"

text \<open>A string, after its opening quote: the code units up to the closing quote.\<close>

fun parse_string :: "ustring \<Rightarrow> string \<Rightarrow> (ustring \<times> string) option" where
  "parse_string out [] = None"
| "parse_string out [c] = (if c = CHR 0x22 then Some (out, []) else None)"
| "parse_string out (c # e # r) =
     (if c = CHR 0x22 then Some (out, e # r)
      else if c = CHR 0x5C then
        (if e = CHR ''u'' then
           (case r of
              h1 # h2 # h3 # h4 # r' \<Rightarrow>
                (case hex4 h1 h2 h3 h4 of
                   Some u \<Rightarrow> parse_string (out @ [u]) r'
                 | None \<Rightarrow> None)
            | _ \<Rightarrow> None)
         else (case escape_char e of
                 Some u \<Rightarrow> parse_string (out @ [u]) r
               | None \<Rightarrow> None))
      else if (of_char c :: nat) < 32 then None
      else parse_string (out @ [of_char c]) (e # r))"

text \<open>
  A number: \<open>-?(0|[1-9][0-9]*)(\.[0-9]+)?([eE][+-]?[0-9]+)?\<close>, with the value of the integer
  part, of the integer part and the fraction, and of these times the power of ten.
\<close>

definition pow10 :: "int \<Rightarrow> rat" where
  "pow10 e = (if 0 \<le> e then 10 ^ nat e else 1 / 10 ^ nat (- e))"

definition parse_exp :: "rat \<Rightarrow> string \<Rightarrow> (rat \<times> string) option" where
  "parse_exp v s =
     (case s of
        [] \<Rightarrow> Some (v, s)
      | e # r \<Rightarrow>
          if e = CHR ''e'' \<or> e = CHR ''E'' then
            (let sg = (case r of [] \<Rightarrow> [] | x # _ \<Rightarrow> if x = CHR ''+'' \<or> x = CHR ''-'' then [x] else []);
                 r' = drop (length sg) r;
                 ds = takeWhile isDigit r'
             in if ds = [] then None
                else Some (v * pow10 (if sg = ''-'' then - digits_val 0 ds else digits_val 0 ds),
                           dropWhile isDigit r'))
          else Some (v, s))"

definition parse_frac :: "int \<Rightarrow> string \<Rightarrow> (rat \<times> string) option" where
  "parse_frac n s =
     (case s of
        [] \<Rightarrow> Some (of_int n, s)
      | p # r \<Rightarrow>
          if p = CHR ''.'' then
            (let ds = takeWhile isDigit r
             in if ds = [] then None
                else parse_exp (of_int n + of_int (digits_val 0 ds) / 10 ^ length ds)
                       (dropWhile isDigit r))
          else parse_exp (of_int n) s)"

definition parse_number :: "string \<Rightarrow> (rat \<times> string) option" where
  "parse_number s =
     (let sg = (case s of [] \<Rightarrow> [] | x # _ \<Rightarrow> if x = CHR ''-'' then [x] else []);
          s' = drop (length sg) s;
          signed = (\<lambda>(v, r). (if sg = ''-'' then - v else v, r))
      in case s' of
           [] \<Rightarrow> None
         | d # r \<Rightarrow>
             if d = CHR ''0'' then map_option signed (parse_frac 0 r)
             else if isDigit d then
               map_option signed
                 (parse_frac (digits_val 0 (takeWhile isDigit s')) (dropWhile isDigit s'))
             else None)"

text \<open>
  A value, the members of an object after \<open>{\<close> or a comma, and the elements of an array
  after \<open>[\<close> or a comma. The first argument bounds the number of nested calls; the length
  of the text is enough, since every call reads a character before the next one.
\<close>

fun parse_value :: "nat \<Rightarrow> string \<Rightarrow> (json \<times> string) option"
and parse_members :: "nat \<Rightarrow> (ustring \<times> json) list \<Rightarrow> string \<Rightarrow> ((ustring \<times> json) list \<times> string) option"
and parse_elements :: "nat \<Rightarrow> json list \<Rightarrow> string \<Rightarrow> (json list \<times> string) option"
where
  "parse_value 0 s = None"
| "parse_value (Suc n) s =
     (case skip_ws s of
        [] \<Rightarrow> None
      | c # r \<Rightarrow>
          if c = CHR ''{'' then
            (if take 1 (skip_ws r) = ''}'' then Some (JObject [], drop 1 (skip_ws r))
             else map_option (\<lambda>(kvs, r'). (JObject kvs, r')) (parse_members n [] r))
          else if c = CHR ''['' then
            (if take 1 (skip_ws r) = '']'' then Some (JArray [], drop 1 (skip_ws r))
             else map_option (\<lambda>(vs, r'). (JArray vs, r')) (parse_elements n [] r))
          else if c = CHR 0x22 then map_option (\<lambda>(str, r'). (JString str, r')) (parse_string [] r)
          else if c = CHR ''-'' \<or> isDigit c then
            map_option (\<lambda>(v, r'). (JNumber v, r')) (parse_number (c # r))
          else if take 4 (c # r) = ''true'' then Some (JBool True, drop 4 (c # r))
          else if take 5 (c # r) = ''false'' then Some (JBool False, drop 5 (c # r))
          else if take 4 (c # r) = ''null'' then Some (JNull, drop 4 (c # r))
          else None)"
| "parse_members 0 out s = None"
| "parse_members (Suc n) out s =
     (case skip_ws s of
        [] \<Rightarrow> None
      | q # r \<Rightarrow>
          if q \<noteq> CHR 0x22 then None
          else (case parse_string [] r of
                  None \<Rightarrow> None
                | Some (k, r1) \<Rightarrow>
                    if take 1 (skip_ws r1) \<noteq> '':'' then None
                    else (case parse_value n (drop 1 (skip_ws r1)) of
                            None \<Rightarrow> None
                          | Some (v, r2) \<Rightarrow>
                              if take 1 (skip_ws r2) = '','' then
                                parse_members n (out @ [(k, v)]) (drop 1 (skip_ws r2))
                              else if take 1 (skip_ws r2) = ''}'' then
                                Some (out @ [(k, v)], drop 1 (skip_ws r2))
                              else None)))"
| "parse_elements 0 out s = None"
| "parse_elements (Suc n) out s =
     (case parse_value n s of
        None \<Rightarrow> None
      | Some (v, r) \<Rightarrow>
          if take 1 (skip_ws r) = '','' then parse_elements n (out @ [v]) (drop 1 (skip_ws r))
          else if take 1 (skip_ws r) = '']'' then Some (out @ [v], drop 1 (skip_ws r))
          else None)"

text \<open>\<open>JSON.parse\<close>: one value, with nothing but white space after it; \<open>None\<close> is a SyntaxError.\<close>

definition JSON_parse :: "string \<Rightarrow> json option" where
  "JSON_parse s =
     (case parse_value (Suc (length s)) s of
        None \<Rightarrow> None
      | Some (v, r) \<Rightarrow> if skip_ws r = [] then Some v else None)"

text \<open>
  \<open>response.summary\<close>: the value of the property, or \<open>undefined\<close> (\<open>None\<close>). The text that is
  parsed begins with \<open>{\<close>, so the parsed value is an object.
\<close>

definition getProp :: "json \<Rightarrow> string \<Rightarrow> json option" where
  "getProp v k = (case v of JObject kvs \<Rightarrow> map_of (rev kvs) (ustr k) | _ \<Rightarrow> None)"

text \<open>
  The double of a literal is zero when no double is nearer to its value than zero: when
  the absolute value is at most \<open>1 / 2 ^ 1075\<close>, half the least positive double.
\<close>

definition number_nonzero :: "rat \<Rightarrow> bool" where
  "number_nonzero v = (1 < \<bar>v\<bar> * 2 ^ 1075)"

text \<open>\<open>!x\<close> is false: the value is none of \<open>undefined\<close>, \<open>null\<close>, \<open>false\<close>, zero and the empty string.\<close>

definition truthy :: "json option \<Rightarrow> bool" where
  "truthy v =
     (case v of
        None \<Rightarrow> False
      | Some JNull \<Rightarrow> False
      | Some (JBool b) \<Rightarrow> b
      | Some (JNumber x) \<Rightarrow> number_nonzero x
      | Some (JString s) \<Rightarrow> s \<noteq> []
      | Some (JArray _) \<Rightarrow> True
      | Some (JObject _) \<Rightarrow> True)"

text \<open>\<open>/\{[\s\S]*\}/\<close>\<close>

definition jsonPattern :: matcher where
  "jsonPattern = seqs [chr CHR ''{'', star (cls (\<lambda>c. isSpace c \<or> \<not> isSpace c)), chr CHR ''}'']"

definition parseLLMResponse :: "string \<Rightarrow> error + ParsedResult" where
  "parseLLMResponse responseText =
     (case match_first jsonPattern responseText of
        None \<Rightarrow> Inl ParseError_NoJSON
      | Some jsonText \<Rightarrow>
          (case JSON_parse jsonText of
             None \<Rightarrow> Inl ParseError_InvalidJSON
           | Some response \<Rightarrow>
               if \<not> truthy (getProp response ''summary'') \<or> \<not> truthy (getProp response ''focus'')
               then Inl ParseError_Missing
               else (case (getProp response ''summary'', getProp response ''focus'') of
                       (Some (JString s), Some (JString f)) \<Rightarrow>
                         Inr \<lparr> summary = s, focus = f, otherKeys = [] \<rparr>
                     | _ \<Rightarrow> Inl ParseError_NotStrings)))"

text \<open>The text from the first \<open>{\<close> to the last \<open>}\<close> of a text, when the first comes before the last.\<close>

definition is_brace_substring :: "string \<Rightarrow> string \<Rightarrow> bool" where
  "is_brace_substring s sub =
     (\<exists>pre mid post. s = pre @ CHR ''{'' # mid @ CHR ''}'' # post \<and>
        CHR ''{'' \<notin> set pre \<and> CHR ''}'' \<notin> set post \<and> sub = CHR ''{'' # mid @ [CHR ''}''])"

definition anyChar :: "char \<Rightarrow> bool" where
  "anyChar c = (isSpace c \<or> \<not> isSpace c)"

section \<open>The weekly synthesis\<close>

definition getEntriesInRange :: "JournalEntries \<Rightarrow> string \<Rightarrow> Date \<Rightarrow> Date \<Rightarrow> JournalEntry list" where
  "getEntriesInRange s uid startDate endDate =
     sort_key date
       (filter (\<lambda>e. userId e = uid \<and> date e \<ge> startDate \<and> date e \<le> endDate)
          (Map_values (entries s)))"

text \<open>\<open>Math.round\<close> rounds to the nearest integer, a half upwards.\<close>

definition js_round :: "rat \<Rightarrow> int" where
  "js_round x = \<lfloor>x + 1 / 2\<rfloor>"

text \<open>
  \<open>ratings.length > 0 ? Math.round((ratings.reduce((sum, r) => sum + r, 0) / ratings.length) * 100) / 100 : 0\<close>
  (every entry has a rating, so \<open>ratings\<close> are the ratings of all entries of the week).
\<close>

definition computeAvgRating :: "int list \<Rightarrow> rat" where
  "computeAvgRating ratings =
     (if length ratings > 0
      then of_int (js_round (of_int (foldl (\<lambda>sum r. sum + r) 0 ratings) / of_nat (length ratings) * 100)) / 100
      else 0)"

text \<open>The loop \<open>for (let i = 0; i < 7; i++)\<close> over the days of the week, with \<open>k\<close> rounds to go.\<close>

fun missingDaysLoop ::
  "TimeZone \<Rightarrow> nat \<Rightarrow> nat \<Rightarrow> Date \<Rightarrow> string list \<Rightarrow> string list \<Rightarrow> string list" where
  "missingDaysLoop tz 0 i weekStart entryDates missingDays = missingDays"
| "missingDaysLoop tz (Suc k) i weekStart entryDates missingDays =
     (let checkDate = addDays tz weekStart (int i);
          isoDate = toISODate checkDate
      in missingDaysLoop tz k (Suc i) weekStart entryDates
           (if isoDate \<notin> set entryDates then missingDays @ [isoDate] else missingDays))"

definition computeMissingDays :: "TimeZone \<Rightarrow> Date \<Rightarrow> JournalEntry list \<Rightarrow> string list" where
  "computeMissingDays tz weekStart weekEntries =
     missingDaysLoop tz 7 0 weekStart (map (\<lambda>e. toISODate (date e)) weekEntries) []"

text \<open>
  The request to the text-generation service. \<open>createWeeklySummaryPrompt\<close> renders its
  arguments as text; no claim reads that text, and the model passes the arguments themselves.
\<close>

record Prompt =
  p_entries :: "JournalEntry list"
  p_entryCount :: nat
  p_avgRating :: rat
  p_missingDays :: "string list"
  p_weekStart :: Date
  p_variant :: PromptVariant

definition createWeeklySummaryPrompt ::
  "JournalEntry list \<Rightarrow> nat \<Rightarrow> rat \<Rightarrow> string list \<Rightarrow> Date \<Rightarrow> PromptVariant \<Rightarrow> Prompt" where
  "createWeeklySummaryPrompt es n avg missing weekStart variant =
     \<lparr> p_entries = es, p_entryCount = n, p_avgRating = avg, p_missingDays = missing,
       p_weekStart = weekStart, p_variant = variant \<rparr>"

text \<open>
  \<open>this.validateLLMOutput(llmResult, weekStart)\<close> on a result of the parser. A result whose
  code units are all below U+0100 goes to the validators as modelled. For any other result
  the outcome of the validators is the parameter \<open>beyond\<close>, of which nothing is assumed: what
  is proved of \<open>summarizeWeek\<close> holds whatever the validators do there.
\<close>

definition narrow :: "ParsedResult \<Rightarrow> LLMResult option" where
  "narrow r =
     (if list_all (\<lambda>u. u < 256) (summary r @ focus r)
      then Some \<lparr> summary = map char_of (summary r), focus = map char_of (focus r),
                  otherKeys = otherKeys r \<rparr>
      else None)"

type_synonym Beyond = "ParsedResult \<Rightarrow> Date \<Rightarrow> error + unit"

definition validateParsed :: "TimeZone \<Rightarrow> Beyond \<Rightarrow> ParsedResult \<Rightarrow> Date \<Rightarrow> error + unit" where
  "validateParsed tz beyond r weekStart =
     (case narrow r of
        Some r' \<Rightarrow> validateLLMOutput tz r' weekStart
      | None \<Rightarrow> beyond r weekStart)"

text \<open>
  \<open>llm.executeLLM(prompt)\<close> returns the response text or raises. The outcome of
  \<open>summarizeWeek\<close> is the store afterwards, the requests that were sent and the value
  returned or the error raised. \<open>now\<close> is the clock read by \<open>new Date()\<close>.
\<close>

type_synonym LLM = "Prompt \<Rightarrow> error + string"

record Outcome =
  state :: JournalEntries
  llmCalls :: "Prompt list"
  result :: "error + WeeklySummary"

definition summarizeWeek ::
  "TimeZone \<Rightarrow> Beyond \<Rightarrow> LLM \<Rightarrow> Date \<Rightarrow> JournalEntries \<Rightarrow> string \<Rightarrow> Date \<Rightarrow> PromptVariant
     \<Rightarrow> Outcome" where
  "summarizeWeek tz beyond llm now s uid weekStart promptVariant =
     (let weekEnd = addDays tz weekStart 6;
          weekEntries = getEntriesInRange s uid weekStart weekEnd
      in if length weekEntries = 0
         then \<lparr> state = s, llmCalls = [], result = Inl NoEntriesError \<rparr>
         else
           let entryCount = length weekEntries;
               ratings = map rating weekEntries;
               avgRating = computeAvgRating ratings;
               missingDays = computeMissingDays tz weekStart weekEntries;
               sourceEntryIds = map id_entry weekEntries;
               prompt = createWeeklySummaryPrompt weekEntries entryCount avgRating missingDays
                          weekStart promptVariant
           in case llm prompt of
                Inl e \<Rightarrow> \<lparr> state = s, llmCalls = [prompt], result = Inl e \<rparr>
              | Inr responseText \<Rightarrow>
                  (case parseLLMResponse responseText of
                     Inl e \<Rightarrow> \<lparr> state = s, llmCalls = [prompt], result = Inl e \<rparr>
                   | Inr llmResult \<Rightarrow>
                       (case validateParsed tz beyond llmResult weekStart of
                          Inl e \<Rightarrow> \<lparr> state = s, llmCalls = [prompt], result = Inl e \<rparr>
                        | Inr _ \<Rightarrow>
                            let summaryKey = getWeeklySummaryKey uid weekStart;
                                weeklySummary =
                                  \<lparr> ws_userId = uid, ws_weekStart = weekStart, ws_weekEnd = weekEnd,
                                    ws_entryCount = entryCount, ws_avgRating = avgRating,
                                    ws_missingDays = missingDays,
                                    ws_summary = summary llmResult, ws_focus = focus llmResult,
                                    ws_sourceEntryIds = sourceEntryIds, ws_generatedAt = now \<rparr>
                            in \<lparr> state = s\<lparr> weeklySummaries :=
                                            Map_set summaryKey weeklySummary (weeklySummaries s) \<rparr>,
                                 llmCalls = [prompt], result = Inr weeklySummary \<rparr>)))"

definition getWeeklySummary :: "JournalEntries \<Rightarrow> string \<Rightarrow> Date \<Rightarrow> WeeklySummary option" where
  "getWeeklySummary s uid weekStart = Map_get (weeklySummaries s) (getWeeklySummaryKey uid weekStart)"

definition emptyJournal :: JournalEntries where
  "emptyJournal = \<lparr> entries = [], weeklySummaries = [], nextId = 1 \<rparr>"

text \<open>The stores that the public operations can reach from the empty one.\<close>

inductive reachable :: "JournalEntries \<Rightarrow> bool" where
  init: "reachable emptyJournal"
| create: "reachable s \<Longrightarrow> reachable (fst (createEntry s uid d g dt p tp r))"
| edit: "reachable s \<Longrightarrow> reachable (fst (editEntry s entryId u))"
| delete: "reachable s \<Longrightarrow> reachable (fst (deleteEntry s entryId))"
| summarize: "reachable s \<Longrightarrow> reachable (state (summarizeWeek tz beyond llm now s uid weekStart v))"

section \<open>Notions of the statements and proofs\<close>

text \<open>The request that \<open>summarizeWeek\<close> sends for the entries of the week.\<close>

definition weekPrompt :: "TimeZone \<Rightarrow> JournalEntries \<Rightarrow> string \<Rightarrow> Date \<Rightarrow> PromptVariant \<Rightarrow> Prompt" where
  "weekPrompt tz s uid weekStart v =
     (let es = getEntriesInRange s uid weekStart (addDays tz weekStart 6)
      in createWeeklySummaryPrompt es (length es) (computeAvgRating (map rating es))
           (computeMissingDays tz weekStart es) weekStart v)"

text \<open>The summary that a successful \<open>summarizeWeek\<close> stores and returns.\<close>

definition weekSummaryOf ::
  "TimeZone \<Rightarrow> JournalEntries \<Rightarrow> string \<Rightarrow> Date \<Rightarrow> ParsedResult \<Rightarrow> Date \<Rightarrow> WeeklySummary" where
  "weekSummaryOf tz s uid weekStart r now =
     (let es = getEntriesInRange s uid weekStart (addDays tz weekStart 6)
      in \<lparr> ws_userId = uid, ws_weekStart = weekStart, ws_weekEnd = addDays tz weekStart 6,
           ws_entryCount = length es, ws_avgRating = computeAvgRating (map rating es),
           ws_missingDays = computeMissingDays tz weekStart es,
           ws_summary = summary r, ws_focus = focus r,
           ws_sourceEntryIds = map id_entry es, ws_generatedAt = now \<rparr>)"

text \<open>The year of a date in UTC, which \<open>toISOString\<close> prints.\<close>

definition utcYear :: "Date \<Rightarrow> int" where
  "utcYear t = fst (civil_from_days (t div msPerDay))"

text \<open>
  A value is falsy: it is \<open>undefined\<close> (the key is missing), \<open>null\<close>, \<open>false\<close>, the empty
  string, or a number whose double is zero.
\<close>

definition falsy :: "json option \<Rightarrow> bool" where
  "falsy v \<longleftrightarrow>
     v = None \<or> v = Some JNull \<or> v = Some (JBool False) \<or> v = Some (JString []) \<or>
     (\<exists>x. v = Some (JNumber x) \<and> \<bar>x\<bar> \<le> 1 / 2 ^ 1075)"

text \<open>
  The bound of \<open>parse_value\<close>, \<open>parse_members\<close> and \<open>parse_elements\<close> does not matter: a
  result with the bound \<open>n\<close> has read at least one character and is the result with every
  bound that is at least the number of characters read.
\<close>

definition fuel_ok_value :: "nat \<Rightarrow> bool" where
  "fuel_ok_value n \<longleftrightarrow>
     (\<forall>s v r. parse_value n s = Some (v, r) \<longrightarrow>
        length r < length s \<and> (\<forall>k. length s - length r \<le> k \<longrightarrow> parse_value k s = Some (v, r)))"

definition fuel_ok_members :: "nat \<Rightarrow> bool" where
  "fuel_ok_members n \<longleftrightarrow>
     (\<forall>out s kvs r. parse_members n out s = Some (kvs, r) \<longrightarrow>
        length r < length s \<and> (\<forall>k. length s - length r \<le> k \<longrightarrow> parse_members k out s = Some (kvs, r)))"

definition fuel_ok_elements :: "nat \<Rightarrow> bool" where
  "fuel_ok_elements n \<longleftrightarrow>
     (\<forall>out s vs r. parse_elements n out s = Some (vs, r) \<longrightarrow>
        length r < length s \<and> (\<forall>k. length s - length r \<le> k \<longrightarrow> parse_elements k out s = Some (vs, r)))"

section \<open>Example states\<close>

definition ex_entry1 :: JournalEntry where
  "ex_entry1 = \<lparr> id_entry = ''entry-1'', userId = ''user-123'', date = 1759708800000,
      gratitude = ''Grateful for a productive day'', didToday = ''Went for a run'',
      proudOf = ''Finished the LLM integration'', tomorrowPlan = ''Start the presentation'',
      rating = 2 \<rparr>"

definition ex_entry2 :: JournalEntry where
  "ex_entry2 = \<lparr> id_entry = ''entry-2'', userId = ''user-123'', date = 1759795200000,
      gratitude = ''Thankful for good weather'', didToday = ''Studied for midterm'',
      proudOf = ''Helped a classmate'', tomorrowPlan = ''Review notes'',
      rating = 1 \<rparr>"

definition ex_journal :: JournalEntries where
  "ex_journal = \<lparr> entries = [(''user-123:2025-10-06'', ex_entry1), (''user-123:2025-10-07'', ex_entry2)],
      weeklySummaries = [], nextId = 3 \<rparr>"

definition ex_updates :: EntryUpdates where
  "ex_updates = \<lparr> u_gratitude = None, u_didToday = None, u_proudOf = None,
      u_tomorrowPlan = Some ''Start presentation and review code'', u_rating = Some 1 \<rparr>"

definition repeated_words :: "nat \<Rightarrow> string" where
  "repeated_words n = concat (replicate n ''ok '')"

definition ex_result :: "nat \<Rightarrow> LLMResult" where
  "ex_result n = \<lparr> summary = repeated_words n, focus = ''Plan 15 minutes daily.'', otherKeys = [] \<rparr>"





definition ex_json_empty :: string where
  \<open>ex_json_empty = ''{"summary":"","focus":"x"}''\<close>

definition ex_response :: string where
  \<open>ex_response = ''Here you go: {"summary":"Good week.","focus":"Plan 15 minutes daily."} Bye''\<close>

definition ex_response_json :: string where
  \<open>ex_response_json = ''{"summary":"Good week.","focus":"Plan 15 minutes daily."}''\<close>

definition ex_utc :: TimeZone where
  "ex_utc = \<lparr> tzaUTC = (\<lambda>t. 0), tzaLocal = (\<lambda>t. 0) \<rparr>"

text \<open>
  London around the end of summer time in 2025: one hour ahead of UTC before
  2025-10-26T01:00Z, and a local time before 02:00 of that day is read as summer time.
\<close>

definition ex_london :: TimeZone where
  "ex_london = \<lparr> tzaUTC = (\<lambda>t. if t < 1761440400000 then 3600000 else 0),
                 tzaLocal = (\<lambda>t. if t < 1761444000000 then 3600000 else 0) \<rparr>"

definition ex_1101 :: LLMResult where
  "ex_1101 = \<lparr> summary = ''Done on 2025-11-01.'', focus = ''Plan 15 minutes daily.'', otherKeys = [] \<rparr>"

definition ex_response_object :: json where
  "ex_response_object =
     JObject [(ustr ''summary'', JString (ustr ''Good week.'')),
              (ustr ''focus'', JString (ustr ''Plan 15 minutes daily.''))]"

definition ex_escape :: string where
  \<open>ex_escape = ''{"summary":"'' @ [CHR 0x5C] @ ''u2603 Snow","focus":"x"}''\<close>

definition ex_tiny :: string where
  \<open>ex_tiny = ''{"summary":1e-400,"focus":"x"}''\<close>

definition ex_good :: ParsedResult where
  "ex_good = \<lparr> summary = ustr ''Good week.'', focus = ustr ''Plan 15 minutes daily.'', otherKeys = [] \<rparr>"

definition ex_good_latin :: LLMResult where
  "ex_good_latin = \<lparr> summary = ''Good week.'', focus = ''Plan 15 minutes daily.'', otherKeys = [] \<rparr>"

text \<open>An outcome of the validators on the results outside their model; any would do.\<close>

definition ex_beyond :: Beyond where
  "ex_beyond r weekStart = Inl ActionabilityError_NoVerb"

definition ex_llm :: LLM where
  "ex_llm p = Inr ex_response"

definition ex_llm_no_json :: LLM where
  "ex_llm_no_json p = Inr ''I cannot help with that.''"

definition ex_extra_response :: string where
  \<open>ex_extra_response = ''{"summary":"Good week.","focus":"Plan 15 minutes daily.","mood":"great"}''\<close>

definition ex_extra_object :: json where
  "ex_extra_object =
     JObject [(ustr ''summary'', JString (ustr ''Good week.'')),
              (ustr ''focus'', JString (ustr ''Plan 15 minutes daily.'')),
              (ustr ''mood'', JString (ustr ''great''))]"

definition ex_llm_extra :: LLM where
  "ex_llm_extra p = Inr ex_extra_response"

definition ex_summarized :: JournalEntries where
  "ex_summarized =
     state (summarizeWeek ex_utc ex_beyond ex_llm 1000 ex_journal ''user-123'' 1759708800000 Base)"

text \<open>
  New York around the start of summer time in 2025: five hours behind UTC before
  2025-03-09T07:00Z and four hours after; a local time before 03:00 of that day is read as
  standard time.
\<close>

definition ex_new_york :: TimeZone where
  "ex_new_york = \<lparr> tzaUTC = (\<lambda>t. if t < 1741503600000 then - 18000000 else - 14400000),
                   tzaLocal = (\<lambda>t. if t < 1741489200000 then - 18000000 else - 14400000) \<rparr>"

definition ex_entry_0308 :: JournalEntry where
  "ex_entry_0308 = \<lparr> id_entry = ''entry-1'', userId = ''user-123'', date = 1741392000000,
      gratitude = ''Grateful for a productive day'', didToday = ''Went for a run'',
      proudOf = ''Finished the LLM integration'', tomorrowPlan = ''Start the presentation'',
      rating = 2 \<rparr>"

definition ex_journal_0308 :: JournalEntries where
  "ex_journal_0308 = \<lparr> entries = [(''user-123:2025-03-08'', ex_entry_0308)],
      weeklySummaries = [], nextId = 2 \<rparr>"

section \<open>Evaluation of dates\<close>

lemma show_nat_small: "n < 10 \<Longrightarrow> show_nat n = [digit_char n]"
  by (subst show_nat.simps) simp

lemma show_nat_large: "10 \<le> n \<Longrightarrow> show_nat n = show_nat (n div 10) @ [digit_char n]"
  by (subst show_nat.simps) simp

lemmas iso_eval = toISODate_def msPerDay_def pad_nat_def show_nat_small show_nat_large digit_char_def

lemma civil_20367: "civil_from_days 20367 = (2025, 10, 6)"
  unfolding civil_from_days_def Let_def by simp

lemma civil_20368: "civil_from_days 20368 = (2025, 10, 7)"
  unfolding civil_from_days_def Let_def by simp

lemma toISODate_ex1: "toISODate 1759708800000 = ''2025-10-06''"
  by (simp add: iso_eval civil_20367)

lemma toISODate_ex2: "toISODate 1759795200000 = ''2025-10-07''"
  by (simp add: iso_eval civil_20368)

section \<open>editEntry changes only the fields it is given\<close>

lemma updateFirst_found:
  "find P (Map_values m) = Some e \<Longrightarrow>
   \<exists>pre k post. m = pre @ (k, e) # post \<and> list_all (\<lambda>p. \<not> P (snd p)) pre \<and> P e \<and>
                 updateFirst P f m = pre @ (k, f e) # post"
proof (induction m)
  case Nil
  then show ?case by (simp add: Map_values_def)
next
  case (Cons p m)
  obtain k v where p: "p = (k, v)" by (cases p)
  show ?case
  proof (cases "P v")
    case True
    with Cons.prems p have "v = e" by (simp add: Map_values_def)
    with True p have "p # m = [] @ (k, e) # m \<and> list_all (\<lambda>p. \<not> P (snd p)) [] \<and> P e \<and>
        updateFirst P f (p # m) = [] @ (k, f e) # m"
      by simp
    then show ?thesis by blast
  next
    case False
    with Cons.prems p have "find P (Map_values m) = Some e" by (simp add: Map_values_def)
    from Cons.IH [OF this] obtain pre k' post where
      h: "m = pre @ (k', e) # post" "list_all (\<lambda>p. \<not> P (snd p)) pre" "P e"
         "updateFirst P f m = pre @ (k', f e) # post"
      by blast
    from h False p have "p # m = (p # pre) @ (k', e) # post \<and>
        list_all (\<lambda>p. \<not> P (snd p)) (p # pre) \<and> P e \<and>
        updateFirst P f (p # m) = (p # pre) @ (k', f e) # post"
      by simp
    then show ?thesis by blast
  qed
qed

lemma applyUpdates_fixed:
  "id_entry (applyUpdates u e) = id_entry e"
  "userId (applyUpdates u e) = userId e"
  "date (applyUpdates u e) = date e"
  by (simp_all add: applyUpdates_def Let_def split: option.splits)

lemma applyUpdates_fields:
  "gratitude (applyUpdates u e) = (case u_gratitude u of None \<Rightarrow> gratitude e | Some v \<Rightarrow> v)"
  "didToday (applyUpdates u e) = (case u_didToday u of None \<Rightarrow> didToday e | Some v \<Rightarrow> v)"
  "proudOf (applyUpdates u e) = (case u_proudOf u of None \<Rightarrow> proudOf e | Some v \<Rightarrow> v)"
  "tomorrowPlan (applyUpdates u e) = (case u_tomorrowPlan u of None \<Rightarrow> tomorrowPlan e | Some v \<Rightarrow> v)"
  "rating (applyUpdates u e) = (case u_rating u of None \<Rightarrow> rating e | Some v \<Rightarrow> v)"
  by (simp_all add: applyUpdates_def Let_def split: option.splits)

text \<open>
  Claim C10. When \<open>editEntry\<close> is called with the identifier of a stored entry \<open>e\<close>, the store
  afterwards holds the same keys and the same entries in the same order, but for the entry
  \<open>e'\<close> at the place of \<open>e\<close>: \<open>e'\<close> has the id, user and date of \<open>e\<close>, every field
  whose update is absent is that of \<open>e\<close>, and on success \<open>e'\<close> is \<open>e\<close> with the given
  fields assigned (on a rejected rating \<open>e'\<close> is \<open>e\<close>). The stored weekly summaries and the
  identifier counter are unchanged, and at most one entry per (user, date) stays true.
\<close>

theorem editEntry_frame:
  assumes found: "findEntryById s entryId = Some e"
      and run: "editEntry s entryId u = (s', r)"
  shows "\<exists>pre k post e'.
      entries s = pre @ (k, e) # post \<and> entries s' = pre @ (k, e') # post \<and>
      id_entry e' = id_entry e \<and> userId e' = userId e \<and> date e' = date e \<and>
      (u_gratitude u = None \<longrightarrow> gratitude e' = gratitude e) \<and>
      (u_didToday u = None \<longrightarrow> didToday e' = didToday e) \<and>
      (u_proudOf u = None \<longrightarrow> proudOf e' = proudOf e) \<and>
      (u_tomorrowPlan u = None \<longrightarrow> tomorrowPlan e' = tomorrowPlan e) \<and>
      (u_rating u = None \<longrightarrow> rating e' = rating e) \<and>
      (case r of Inr x \<Rightarrow> x = e' \<and> e' = applyUpdates u e | Inl err \<Rightarrow> e' = e) \<and>
      weeklySummaries s' = weeklySummaries s \<and> nextId s' = nextId s \<and>
      (one_entry_per_user_date s \<longrightarrow> one_entry_per_user_date s')"
proof -
  let ?P = "\<lambda>x. id_entry x = entryId"
  from found have f: "find ?P (Map_values (entries s)) = Some e"
    by (simp add: findEntryById_def)
  from updateFirst_found [OF f, of "applyUpdates u"] obtain pre k post where
    h: "entries s = pre @ (k, e) # post"
       "updateFirst ?P (applyUpdates u) (entries s) = pre @ (k, applyUpdates u e) # post"
    by blast
  show ?thesis
  proof (cases "\<exists>x. u_rating u = Some x \<and> \<not> validRating x")
    case True
    with found run have "s' = s" "r = Inl RatingError"
      by (auto simp: editEntry_def)
    with h(1) have "entries s = pre @ (k, e) # post \<and> entries s' = pre @ (k, e) # post \<and>
      (case r of Inr x \<Rightarrow> x = e \<and> e = applyUpdates u e | Inl err \<Rightarrow> e = e) \<and>
      weeklySummaries s' = weeklySummaries s \<and> nextId s' = nextId s \<and>
      (one_entry_per_user_date s \<longrightarrow> one_entry_per_user_date s')"
      by simp
    then show ?thesis by blast
  next
    case False
    with found run have s': "s' = s\<lparr> entries := updateFirst ?P (applyUpdates u) (entries s) \<rparr>"
      and r: "r = Inr (applyUpdates u e)"
      by (auto simp: editEntry_def split: option.splits if_splits)
    have inv: "one_entry_per_user_date s \<longrightarrow> one_entry_per_user_date s'"
      using h s' by (simp add: one_entry_per_user_date_def Map_values_def applyUpdates_fixed)
    from h s' r inv have "entries s = pre @ (k, e) # post \<and>
      entries s' = pre @ (k, applyUpdates u e) # post \<and>
      (case r of Inr x \<Rightarrow> x = applyUpdates u e \<and> applyUpdates u e = applyUpdates u e
       | Inl err \<Rightarrow> applyUpdates u e = e) \<and>
      weeklySummaries s' = weeklySummaries s \<and> nextId s' = nextId s \<and>
      (one_entry_per_user_date s \<longrightarrow> one_entry_per_user_date s')"
      by simp
    then show ?thesis
      using applyUpdates_fixed [of u e] applyUpdates_fields [of u e]
      by (intro exI [of _ pre] exI [of _ k] exI [of _ post] exI [of _ "applyUpdates u e"]) simp
  qed
qed

lemma ex_find: "findEntryById ex_journal ''entry-1'' = Some ex_entry1"
  by (simp add: findEntryById_def ex_journal_def Map_values_def ex_entry1_def)

lemma ex_edit: "editEntry ex_journal ''entry-1'' ex_updates =
   (ex_journal\<lparr> entries := [(''user-123:2025-10-06'',
        ex_entry1\<lparr> tomorrowPlan := ''Start presentation and review code'', rating := 1 \<rparr>),
        (''user-123:2025-10-07'', ex_entry2)] \<rparr>,
    Inr (ex_entry1\<lparr> tomorrowPlan := ''Start presentation and review code'', rating := 1 \<rparr>))"
  by (simp add: editEntry_def ex_find ex_updates_def validRating_def)
     (simp add: ex_journal_def ex_entry1_def applyUpdates_def)

lemma ex_inv: "one_entry_per_user_date ex_journal"
  by (simp add: one_entry_per_user_date_def ex_journal_def Map_values_def ex_entry1_def
      ex_entry2_def toISODate_ex1 toISODate_ex2)

theorem editEntry_frame_witness:
  "findEntryById ex_journal ''entry-1'' = Some ex_entry1 \<and>
   snd (editEntry ex_journal ''entry-1'' ex_updates) =
     Inr (ex_entry1\<lparr> tomorrowPlan := ''Start presentation and review code'', rating := 1 \<rparr>) \<and>
   one_entry_per_user_date ex_journal \<and>
   one_entry_per_user_date (fst (editEntry ex_journal ''entry-1'' ex_updates)) \<and>
   weeklySummaries (fst (editEntry ex_journal ''entry-1'' ex_updates)) = []"
proof -
  from editEntry_frame [OF ex_find ex_edit] obtain pre k post e' where
    h: "weeklySummaries (ex_journal\<lparr> entries := [(''user-123:2025-10-06'',
          ex_entry1\<lparr> tomorrowPlan := ''Start presentation and review code'', rating := 1 \<rparr>),
          (''user-123:2025-10-07'', ex_entry2)] \<rparr>) = weeklySummaries ex_journal"
       "one_entry_per_user_date ex_journal \<longrightarrow>
        one_entry_per_user_date (ex_journal\<lparr> entries := [(''user-123:2025-10-06'',
          ex_entry1\<lparr> tomorrowPlan := ''Start presentation and review code'', rating := 1 \<rparr>),
          (''user-123:2025-10-07'', ex_entry2)] \<rparr>)"
    by blast
  from h ex_inv show ?thesis
    by (simp add: ex_find ex_edit) (simp add: ex_journal_def)
qed

section \<open>What the matchers accept\<close>

lemma set_cls: "set (cls P (b, a)) = {(c # b, r) | c r. a = c # r \<and> P c}"
  by (auto simp: cls_def split: list.splits)

lemma set_seq: "set (seq m1 m2 st) = (\<Union>st' \<in> set (m1 st). set (m2 st'))"
  by (simp add: seq_def)

lemma set_alt: "set (alt m1 m2 st) = set (m1 st) \<union> set (m2 st)"
  by (simp add: alt_def)

lemma set_opt: "set (opt m st) = insert st (set (m st))"
  by (simp add: opt_def)

lemma set_eps: "set (eps st) = {st}"
  by (simp add: eps_def)

lemma set_wordb: "set (wordb (b, a)) = (if isWordHd b \<noteq> isWordHd a then {(b, a)} else {})"
  by (simp add: wordb_def)

lemma set_lit_i:
  "set (lit_i w (b, a)) =
     {(rev u @ b, r) | u r. a = u @ r \<and> length u = length w \<and> toLowerCase u = toLowerCase w}"
proof (induction w arbitrary: b a)
  case Nil
  then show ?case by (simp add: lit_i_def seqs_def eps_def toLowerCase_def)
next
  case (Cons x w)
  have unfold: "lit_i (x # w) = seq (chr_i x) (lit_i w)"
    by (simp add: lit_i_def seqs_def)
  show ?case
  proof (rule set_eqI, rule iffI)
    fix st assume "st \<in> set (lit_i (x # w) (b, a))"
    then obtain c r where a: "a = c # r" and c: "toLowerCase_char c = toLowerCase_char x"
      and st: "st \<in> set (lit_i w (c # b, r))"
      by (auto simp: unfold set_seq chr_i_def set_cls)
    from st Cons.IH [of "c # b" r] obtain u r' where
      "st = (rev u @ c # b, r')" "r = u @ r'" "length u = length w" "toLowerCase u = toLowerCase w"
      by auto
    with a c have "st = (rev (c # u) @ b, r') \<and> a = (c # u) @ r' \<and> length (c # u) = length (x # w)
        \<and> toLowerCase (c # u) = toLowerCase (x # w)"
      by (simp add: toLowerCase_def)
    then show "st \<in> {(rev u @ b, r) | u r. a = u @ r \<and> length u = length (x # w) \<and>
        toLowerCase u = toLowerCase (x # w)}"
      by blast
  next
    fix st assume "st \<in> {(rev u @ b, r) | u r. a = u @ r \<and> length u = length (x # w) \<and>
        toLowerCase u = toLowerCase (x # w)}"
    then obtain u r where st: "st = (rev u @ b, r)" and a: "a = u @ r"
      and len: "length u = length (x # w)" and low: "toLowerCase u = toLowerCase (x # w)"
      by blast
    from len obtain c u' where u: "u = c # u'" by (cases u) auto
    with len low have c: "toLowerCase_char c = toLowerCase_char x" and len': "length u' = length w"
      and low': "toLowerCase u' = toLowerCase w"
      by (simp_all add: toLowerCase_def)
    have "st \<in> set (lit_i w (c # b, u' @ r))"
      using Cons.IH [of "c # b" "u' @ r"] st u len' low' by auto
    then show "st \<in> set (lit_i (x # w) (b, a))"
      using a u c by (auto simp: unfold set_seq chr_i_def set_cls)
  qed
qed

lemma exec_from_None:
  "exec_from m b a = None \<longleftrightarrow> (\<forall>pre post. a = pre @ post \<longrightarrow> m (rev pre @ b, post) = [])"
proof (induction a arbitrary: b)
  case Nil
  then show ?case by (auto split: list.splits)
next
  case (Cons c a)
  show ?case
  proof (cases "m (b, c # a)")
    case Nil
    have "(\<forall>pre post. c # a = pre @ post \<longrightarrow> m (rev pre @ b, post) = []) \<longleftrightarrow>
          (\<forall>pre post. a = pre @ post \<longrightarrow> m (rev pre @ c # b, post) = [])"
    proof
      assume h: "\<forall>pre post. c # a = pre @ post \<longrightarrow> m (rev pre @ b, post) = []"
      show "\<forall>pre post. a = pre @ post \<longrightarrow> m (rev pre @ c # b, post) = []"
      proof (intro allI impI)
        fix pre post assume "a = pre @ post"
        then have "c # a = (c # pre) @ post" by simp
        with h have "m (rev (c # pre) @ b, post) = []" by blast
        then show "m (rev pre @ c # b, post) = []" by simp
      qed
    next
      assume h: "\<forall>pre post. a = pre @ post \<longrightarrow> m (rev pre @ c # b, post) = []"
      show "\<forall>pre post. c # a = pre @ post \<longrightarrow> m (rev pre @ b, post) = []"
      proof (intro allI impI)
        fix pre post assume e: "c # a = pre @ post"
        show "m (rev pre @ b, post) = []"
        proof (cases pre)
          case Nil
          with e \<open>m (b, c # a) = []\<close> show ?thesis by simp
        next
          case (Cons x pre')
          with e have "x = c" "a = pre' @ post" by simp_all
          with h have "m (rev pre' @ c # b, post) = []" by blast
          with Cons \<open>x = c\<close> show ?thesis by simp
        qed
      qed
    qed
    with Nil Cons.IH [of "c # b"] show ?thesis by simp
  next
    case (Cons r rs)
    then have "m (rev [] @ b, c # a) \<noteq> []" by simp
    then have "\<not> (\<forall>pre post. c # a = pre @ post \<longrightarrow> m (rev pre @ b, post) = [])"
      by (metis append_Nil)
    with Cons show ?thesis by simp
  qed
qed

lemma test_iff: "test m s \<longleftrightarrow> (\<exists>pre post. s = pre @ post \<and> m (rev pre, post) \<noteq> [])"
  using exec_from_None [of m "[]" s] by (auto simp: test_def)

lemma toLowerCase_char_idem: "toLowerCase_char (toLowerCase_char c) = toLowerCase_char c"
  by (auto simp add: toLowerCase_char_def inRange_def)

lemma isWordChar_lower: "isWordChar (toLowerCase_char c) = isWordChar c"
  apply (auto simp add: toLowerCase_char_def isWordChar_def inRange_def char_of_eq_iff take_bit_eq_mod)
  done

lemma isDigit_word: "isDigit c \<Longrightarrow> isWordChar c"
  by (simp add: isDigit_def isWordChar_def)

lemma set_star_cls:
  "set (star (cls P) (b, a)) = {(rev u @ b, r) | u r. a = u @ r \<and> list_all P u}"
proof (induction a arbitrary: b)
  case Nil
  show ?case by (subst star.simps) (auto simp: cls_def)
next
  case (Cons c a)
  show ?case
  proof (cases "P c")
    case False
    have "set (star (cls P) (b, c # a)) = {(b, c # a)}"
      using False by (subst star.simps) (simp add: cls_def)
    moreover have "{(rev u @ b, r) | u r. c # a = u @ r \<and> list_all P u} = {(b, c # a)}"
    proof (rule set_eqI, rule iffI)
      fix st assume "st \<in> {(rev u @ b, r) | u r. c # a = u @ r \<and> list_all P u}"
      then obtain u r where h: "st = (rev u @ b, r)" "c # a = u @ r" "list_all P u" by blast
      with False have "u = []" by (cases u) auto
      with h show "st \<in> {(b, c # a)}" by simp
    next
      fix st assume "st \<in> {(b, c # a)}"
      then have "st = (rev [] @ b, c # a) \<and> c # a = [] @ c # a \<and> list_all P []" by simp
      then show "st \<in> {(rev u @ b, r) | u r. c # a = u @ r \<and> list_all P u}" by blast
    qed
    ultimately show ?thesis by simp
  next
    case True
    have "set (star (cls P) (b, c # a)) = insert (b, c # a) (set (star (cls P) (c # b, a)))"
      using True by (subst star.simps) (simp add: cls_def)
    moreover have "{(rev u @ b, r) | u r. c # a = u @ r \<and> list_all P u} =
        insert (b, c # a) {(rev u @ c # b, r) | u r. a = u @ r \<and> list_all P u}"
    proof (rule set_eqI, rule iffI)
      fix st assume "st \<in> {(rev u @ b, r) | u r. c # a = u @ r \<and> list_all P u}"
      then obtain u r where h: "st = (rev u @ b, r)" "c # a = u @ r" "list_all P u" by blast
      show "st \<in> insert (b, c # a) {(rev u @ c # b, r) | u r. a = u @ r \<and> list_all P u}"
      proof (cases u)
        case Nil
        with h show ?thesis by simp
      next
        case (Cons x u')
        with h have "st = (rev u' @ c # b, r) \<and> a = u' @ r \<and> list_all P u'" by simp
        then show ?thesis by blast
      qed
    next
      fix st assume "st \<in> insert (b, c # a) {(rev u @ c # b, r) | u r. a = u @ r \<and> list_all P u}"
      then consider "st = (b, c # a)" | u r where "st = (rev u @ c # b, r)" "a = u @ r" "list_all P u"
        by blast
      then show "st \<in> {(rev u @ b, r) | u r. c # a = u @ r \<and> list_all P u}"
      proof cases
        case 1
        then have "st = (rev [] @ b, c # a) \<and> c # a = [] @ c # a \<and> list_all P []" by simp
        then show ?thesis by blast
      next
        case 2
        with True have "st = (rev (c # u) @ b, r) \<and> c # a = (c # u) @ r \<and> list_all P (c # u)" by simp
        then show ?thesis by blast
      qed
    qed
    ultimately show ?thesis using Cons.IH [of "c # b"] by simp
  qed
qed

lemma set_plus_cls:
  "set (plus (cls P) (b, a)) = {(rev u @ b, r) | u r. a = u @ r \<and> u \<noteq> [] \<and> list_all P u}"
proof (rule set_eqI, rule iffI)
  fix st assume "st \<in> set (plus (cls P) (b, a))"
  then obtain c a' where a: "a = c # a'" "P c" and st: "st \<in> set (star (cls P) (c # b, a'))"
    by (auto simp: plus_def set_seq set_cls)
  from st obtain u r where "st = (rev u @ c # b, r)" "a' = u @ r" "list_all P u"
    by (auto simp: set_star_cls)
  with a have "st = (rev (c # u) @ b, r) \<and> a = (c # u) @ r \<and> c # u \<noteq> [] \<and> list_all P (c # u)"
    by simp
  then show "st \<in> {(rev u @ b, r) | u r. a = u @ r \<and> u \<noteq> [] \<and> list_all P u}" by blast
next
  fix st assume "st \<in> {(rev u @ b, r) | u r. a = u @ r \<and> u \<noteq> [] \<and> list_all P u}"
  then obtain u r where h: "st = (rev u @ b, r)" "a = u @ r" "u \<noteq> []" "list_all P u" by blast
  then obtain c u' where u: "u = c # u'" by (cases u) auto
  with h have "(c # b, u' @ r) \<in> set (cls P (b, a))" by (simp add: set_cls)
  moreover from h u have "st \<in> set (star (cls P) (c # b, u' @ r))"
    by (auto simp: set_star_cls)
  ultimately show "st \<in> set (plus (cls P) (b, a))"
    by (auto simp: plus_def set_seq)
qed

lemma seqs_Cons: "seqs (m # ms) = seq m (seqs ms)"
  by (simp add: seqs_def)

lemma seqs_Nil: "seqs [] = eps"
  by (simp add: seqs_def)

lemma toLowerCase_idem: "toLowerCase (toLowerCase s) = toLowerCase s"
  by (simp add: toLowerCase_def toLowerCase_char_idem)
lemma toLowerCase_append: "toLowerCase (a @ b) = toLowerCase a @ toLowerCase b"
  by (simp add: toLowerCase_def)
lemma toLowerCase_Nil: "toLowerCase u = [] \<longleftrightarrow> u = []"
  by (simp add: toLowerCase_def)
lemma toLowerCase_split:
  "toLowerCase s = a @ b \<Longrightarrow> \<exists>x y. s = x @ y \<and> toLowerCase x = a \<and> toLowerCase y = b"
  unfolding toLowerCase_def by (simp add: map_eq_append_conv) blast
lemma isWordHd_lower: "isWordHd (toLowerCase s) = isWordHd s"
  by (cases s) (simp_all add: isWordHd_def toLowerCase_def isWordChar_lower)
lemma isWordHd_rev_lower: "isWordHd (rev (toLowerCase s)) = isWordHd (rev s)"
  using isWordHd_lower [of "rev s"] by (simp add: toLowerCase_def rev_map)
lemma lower_eq_hd: "toLowerCase u = toLowerCase w \<Longrightarrow> w \<noteq> [] \<Longrightarrow> isWordChar (hd w) \<Longrightarrow> isWordHd (u @ r)"
proof -
  assume h: "toLowerCase u = toLowerCase w" "w \<noteq> []" "isWordChar (hd w)"
  then obtain c u' where u: "u = c # u'" by (cases u) (auto simp: toLowerCase_def)
  from h obtain x w' where w: "w = x # w'" by (cases w) auto
  from h u w have "toLowerCase_char c = toLowerCase_char x" by (simp add: toLowerCase_def)
  then have "isWordChar c = isWordChar x" by (metis isWordChar_lower)
  with h u w show ?thesis by (simp add: isWordHd_def)
qed
lemma lower_eq_last: "toLowerCase u = toLowerCase w \<Longrightarrow> w \<noteq> [] \<Longrightarrow> isWordChar (last w) \<Longrightarrow> isWordHd (rev u @ b)"
proof -
  assume h: "toLowerCase u = toLowerCase w" "w \<noteq> []" "isWordChar (last w)"
  then have "toLowerCase (rev u) = toLowerCase (rev w)" by (simp add: toLowerCase_def rev_map [symmetric])
  moreover from h have "rev w \<noteq> []" "isWordChar (hd (rev w))" by (simp_all add: hd_rev)
  ultimately show ?thesis by (rule lower_eq_hd)
qed
lemma set_bounded:
  "set (seqs [wordb, M, wordb] (b, a)) =
     {st \<in> set (M (b, a)). isWordHd b \<noteq> isWordHd a \<and> isWordHd (fst st) \<noteq> isWordHd (snd st)}"
  by (auto simp: seqs_Cons seqs_Nil set_seq set_wordb set_eps seq_def eps_def wordb_def split: if_splits)
lemma test_verbPattern:
  assumes w: "w \<noteq> []" "isWordChar (hd w)" "isWordChar (last w)"
  shows "test (verbPattern w) s \<longleftrightarrow>
     (\<exists>pre u post. s = pre @ u @ post \<and> toLowerCase u = toLowerCase w \<and>
        \<not> isWordHd (rev pre) \<and> \<not> isWordHd post)"
proof
  assume "test (verbPattern w) s"
  then obtain pre post where s: "s = pre @ post" and ne: "verbPattern w (rev pre, post) \<noteq> []"
    by (auto simp: test_iff)
  from ne obtain st where st: "st \<in> set (verbPattern w (rev pre, post))"
    by (cases "verbPattern w (rev pre, post)") auto
  from st have m: "st \<in> set (lit_i w (rev pre, post))"
    and b1: "isWordHd (rev pre) \<noteq> isWordHd post" and b2: "isWordHd (fst st) \<noteq> isWordHd (snd st)"
    by (auto simp: verbPattern_def set_bounded)
  from m obtain u r where u: "st = (rev u @ rev pre, r)" "post = u @ r" "toLowerCase u = toLowerCase w"
    by (auto simp: set_lit_i)
  from u w have "isWordHd post" "isWordHd (rev u @ rev pre)"
    by (auto intro: lower_eq_hd lower_eq_last)
  with b1 b2 u have "\<not> isWordHd (rev pre)" "\<not> isWordHd r" by auto
  with s u show "\<exists>pre u post. s = pre @ u @ post \<and> toLowerCase u = toLowerCase w \<and>
        \<not> isWordHd (rev pre) \<and> \<not> isWordHd post"
    by blast
next
  assume "\<exists>pre u post. s = pre @ u @ post \<and> toLowerCase u = toLowerCase w \<and>
        \<not> isWordHd (rev pre) \<and> \<not> isWordHd post"
  then obtain pre u post where h: "s = pre @ u @ post" "toLowerCase u = toLowerCase w"
      "\<not> isWordHd (rev pre)" "\<not> isWordHd post"
    by blast
  from h(2) have len: "length u = length w" by (metis length_map toLowerCase_def)
  from h w have hd: "isWordHd (u @ post)" and lst: "isWordHd (rev u @ rev pre)"
    by (auto intro: lower_eq_hd lower_eq_last)
  have "(rev u @ rev pre, post) \<in> set (lit_i w (rev pre, u @ post))"
    using h(2) len by (auto simp: set_lit_i)
  with h hd lst have "(rev u @ rev pre, post) \<in> set (verbPattern w (rev pre, u @ post))"
    by (simp add: verbPattern_def set_bounded)
  then have "verbPattern w (rev pre, u @ post) \<noteq> []" by auto
  with h(1) show "test (verbPattern w) s" by (auto simp: test_iff)
qed
lemma test_verbPattern_lower:
  assumes w: "lower_word w"
  shows "test (verbPattern w) (toLowerCase s) \<longleftrightarrow> occurs_word_ci w s"
proof -
  from w have w': "w \<noteq> []" "isWordChar (hd w)" "isWordChar (last w)" and lw: "toLowerCase w = w"
    by (simp_all add: lower_word_def)
  show ?thesis
  proof
    assume "test (verbPattern w) (toLowerCase s)"
    then obtain pre' u' post' where h: "toLowerCase s = pre' @ u' @ post'"
        "toLowerCase u' = toLowerCase w" "\<not> isWordHd (rev pre')" "\<not> isWordHd post'"
      using test_verbPattern [OF w'] by blast
    from toLowerCase_split [OF h(1)] obtain pre rest where p: "s = pre @ rest"
        "toLowerCase pre = pre'" "toLowerCase rest = u' @ post'"
      by blast
    from toLowerCase_split [OF p(3)] obtain u post where q: "rest = u @ post"
        "toLowerCase u = u'" "toLowerCase post = post'"
      by blast
    from h q lw have "toLowerCase u = w" by (metis toLowerCase_idem)
    moreover from h p q have "\<not> isWordHd (rev pre)" "\<not> isWordHd post"
      by (auto simp: isWordHd_lower isWordHd_rev_lower)
    ultimately show "occurs_word_ci w s"
      using p q by (auto simp: occurs_word_ci_def)
  next
    assume "occurs_word_ci w s"
    then obtain pre u post where h: "s = pre @ u @ post" "toLowerCase u = w"
        "\<not> isWordHd (rev pre)" "\<not> isWordHd post"
      by (auto simp: occurs_word_ci_def)
    then have "toLowerCase s = toLowerCase pre @ toLowerCase u @ toLowerCase post \<and>
        toLowerCase (toLowerCase u) = toLowerCase w \<and>
        \<not> isWordHd (rev (toLowerCase pre)) \<and> \<not> isWordHd (toLowerCase post)"
      by (simp add: toLowerCase_append toLowerCase_idem isWordHd_lower isWordHd_rev_lower)
    then show "test (verbPattern w) (toLowerCase s)"
      using test_verbPattern [OF w'] by blast
  qed
qed
lemma test_word_i:
  assumes w: "lower_word w"
  shows "test (seqs [wordb, lit_i w, wordb]) s \<longleftrightarrow> occurs_word_ci w s"
  using test_verbPattern [of w s] w
  by (auto simp: verbPattern_def lower_word_def occurs_word_ci_def)
lemma test_alt: "test (alt m1 m2) s \<longleftrightarrow> test m1 s \<or> test m2 s"
  by (auto simp: test_iff alt_def)

lemma set_seqs_append:
  "set (seqs (ms @ ms') st) = (\<Union>st' \<in> set (seqs ms st). set (seqs ms' st'))"
proof (induction ms arbitrary: st)
  case Nil
  show ?case by (simp add: seqs_Nil eps_def)
next
  case (Cons m ms)
  show ?case by (simp add: seqs_Cons set_seq Cons.IH)
qed
lemma set_bounded_list:
  "set (seqs (wordb # ms @ [wordb]) (b, a)) =
     {st \<in> set (seqs ms (b, a)). isWordHd b \<noteq> isWordHd a \<and> isWordHd (fst st) \<noteq> isWordHd (snd st)}"
  by (auto simp: seqs_Cons seqs_Nil set_seq set_seqs_append set_wordb set_eps seq_def eps_def wordb_def
      split: if_splits)
lemma set_lit_i_lower:
  "set (lit_i w (b, a)) = {(rev u @ b, r) | u r. a = u @ r \<and> toLowerCase u = toLowerCase w}"
proof -
  have "\<And>u. toLowerCase u = toLowerCase w \<Longrightarrow> length u = length w"
    by (metis length_map toLowerCase_def)
  then show ?thesis unfolding set_lit_i by blast
qed
lemma set_unitsPattern:
  "set (unitsPattern units (b, a)) =
     {(rev u @ b, r) | u r. a = u @ r \<and> toLowerCase u \<in> set (map toLowerCase units)}"
proof (induction units)
  case Nil
  show ?case by (simp add: unitsPattern_def)
next
  case (Cons w units)
  have "unitsPattern (w # units) = alt (lit_i w) (unitsPattern units)"
    by (simp add: unitsPattern_def)
  then show ?case using Cons.IH by (auto simp: set_alt set_lit_i_lower)
qed
lemma set_lit_i_opt:
  "set (seq (lit_i w) (opt (chr_i x)) (b, a)) =
     {(rev u @ b, r) | u r. a = u @ r \<and>
        (toLowerCase u = toLowerCase w \<or> toLowerCase u = toLowerCase (w @ [x]))}"
proof (rule set_eqI, rule iffI)
  fix st assume "st \<in> set (seq (lit_i w) (opt (chr_i x)) (b, a))"
  then obtain u r' where u: "a = u @ r'" "toLowerCase u = toLowerCase w"
    and st: "st = (rev u @ b, r') \<or> st \<in> set (chr_i x (rev u @ b, r'))"
    by (auto simp: set_seq set_opt set_lit_i_lower)
  from st show "st \<in> {(rev u @ b, r) | u r. a = u @ r \<and>
        (toLowerCase u = toLowerCase w \<or> toLowerCase u = toLowerCase (w @ [x]))}"
  proof
    assume "st = (rev u @ b, r')"
    with u show ?thesis by blast
  next
    assume "st \<in> set (chr_i x (rev u @ b, r'))"
    then obtain c r where c: "r' = c # r" "toLowerCase_char c = toLowerCase_char x"
        "st = (c # rev u @ b, r)"
      by (auto simp: chr_i_def set_cls)
    with u have "st = (rev (u @ [c]) @ b, r) \<and> a = (u @ [c]) @ r \<and>
        toLowerCase (u @ [c]) = toLowerCase (w @ [x])"
      by (simp add: toLowerCase_def)
    then show ?thesis by blast
  qed
next
  fix st assume "st \<in> {(rev u @ b, r) | u r. a = u @ r \<and>
        (toLowerCase u = toLowerCase w \<or> toLowerCase u = toLowerCase (w @ [x]))}"
  then obtain u r where h: "st = (rev u @ b, r)" "a = u @ r"
      "toLowerCase u = toLowerCase w \<or> toLowerCase u = toLowerCase (w @ [x])"
    by blast
  from h(3) show "st \<in> set (seq (lit_i w) (opt (chr_i x)) (b, a))"
  proof
    assume "toLowerCase u = toLowerCase w"
    with h have "st \<in> set (lit_i w (b, a))" by (auto simp: set_lit_i_lower)
    then show ?thesis by (auto simp: set_seq set_opt)
  next
    assume l: "toLowerCase u = toLowerCase (w @ [x])"
    then have "u \<noteq> []" by (auto simp: toLowerCase_def)
    then obtain u0 c where u: "u = u0 @ [c]" by (metis rev_exhaust)
    with l have l0: "toLowerCase u0 = toLowerCase w" and lc: "toLowerCase_char c = toLowerCase_char x"
      by (simp_all add: toLowerCase_def)
    from h u l0 have "(rev u0 @ b, c # r) \<in> set (lit_i w (b, a))"
      by (auto simp: set_lit_i_lower)
    moreover from h u lc have "st \<in> set (chr_i x (rev u0 @ b, c # r))"
      by (simp add: chr_i_def set_cls)
    ultimately show ?thesis by (auto simp: set_seq set_opt)
  qed
qed
lemma lower_simps:
  "toLowerCase ''min'' = ''min''" "toLowerCase ''minute'' = ''minute''"
  "toLowerCase ''minutes'' = ''minutes''" "toLowerCase ''hour'' = ''hour''"
  "toLowerCase ''hours'' = ''hours''"
  by (simp_all add: toLowerCase_def toLowerCase_char_def inRange_def)
lemma set_unitGroup:
  "set (unitGroup (b, a)) =
     {(rev u @ b, r) | u r. a = u @ r \<and>
        toLowerCase u \<in> set [''min'', ''minute'', ''minutes'', ''hour'', ''hours'']}"
  unfolding unitGroup_def set_alt set_lit_i_opt set_lit_i_lower
  by (auto simp: lower_simps)
lemma set_duration_body:
  assumes U: "\<And>b a. set (Um (b, a)) = {(rev u @ b, r) | u r. a = u @ r \<and> toLowerCase u \<in> set units}"
  shows "set (seqs [plus (cls isDigit), opt (cls isSpace), Um] (b, a)) =
     {(rev (ds @ sp @ u) @ b, r) | ds sp u r. a = ds @ sp @ u @ r \<and> ds \<noteq> [] \<and> list_all isDigit ds \<and>
        length sp \<le> 1 \<and> list_all isSpace sp \<and> toLowerCase u \<in> set units}"
proof (rule set_eqI, rule iffI)
  fix st assume "st \<in> set (seqs [plus (cls isDigit), opt (cls isSpace), Um] (b, a))"
  then obtain s1 s2 where s1: "s1 \<in> set (plus (cls isDigit) (b, a))"
      and s2: "s2 \<in> set (opt (cls isSpace) s1)" and s3: "st \<in> set (Um s2)"
    by (auto simp: seqs_Cons seqs_Nil set_seq set_eps)
  from s1 obtain ds r1 where d: "s1 = (rev ds @ b, r1)" "a = ds @ r1" "ds \<noteq> []" "list_all isDigit ds"
    by (auto simp: set_plus_cls)
  from s2 d obtain sp r2 where p: "s2 = (rev sp @ rev ds @ b, r2)" "r1 = sp @ r2" "length sp \<le> 1"
      "list_all isSpace sp"
  proof (cases "s2 = s1")
    case True
    with d have "s2 = (rev [] @ rev ds @ b, r1)" "r1 = [] @ r1" "length ([]::string) \<le> 1"
      "list_all isSpace []" by simp_all
    then show ?thesis by (rule that)
  next
    case False
    with s2 d obtain c r2 where "r1 = c # r2" "isSpace c" "s2 = (c # rev ds @ b, r2)"
      by (auto simp: set_opt set_cls)
    then have "s2 = (rev [c] @ rev ds @ b, r2)" "r1 = [c] @ r2" "length [c] \<le> 1" "list_all isSpace [c]"
      by simp_all
    then show ?thesis by (rule that)
  qed
  from s3 p obtain u r where u: "st = (rev u @ rev sp @ rev ds @ b, r)" "r2 = u @ r"
      "toLowerCase u \<in> set units"
    by (auto simp: U)
  from d p u have "st = (rev (ds @ sp @ u) @ b, r) \<and> a = ds @ sp @ u @ r \<and> ds \<noteq> [] \<and>
      list_all isDigit ds \<and> length sp \<le> 1 \<and> list_all isSpace sp \<and> toLowerCase u \<in> set units"
    by simp
  then show "st \<in> {(rev (ds @ sp @ u) @ b, r) | ds sp u r. a = ds @ sp @ u @ r \<and> ds \<noteq> [] \<and>
      list_all isDigit ds \<and> length sp \<le> 1 \<and> list_all isSpace sp \<and> toLowerCase u \<in> set units}"
    by blast
next
  fix st assume "st \<in> {(rev (ds @ sp @ u) @ b, r) | ds sp u r. a = ds @ sp @ u @ r \<and> ds \<noteq> [] \<and>
      list_all isDigit ds \<and> length sp \<le> 1 \<and> list_all isSpace sp \<and> toLowerCase u \<in> set units}"
  then obtain ds sp u r where h: "st = (rev (ds @ sp @ u) @ b, r)" "a = ds @ sp @ u @ r" "ds \<noteq> []"
      "list_all isDigit ds" "length sp \<le> 1" "list_all isSpace sp" "toLowerCase u \<in> set units"
    by blast
  have 1: "(rev ds @ b, sp @ u @ r) \<in> set (plus (cls isDigit) (b, a))"
    using h by (auto simp: set_plus_cls)
  have 2: "(rev sp @ rev ds @ b, u @ r) \<in> set (opt (cls isSpace) (rev ds @ b, sp @ u @ r))"
  proof (cases sp)
    case Nil
    then show ?thesis by (simp add: set_opt)
  next
    case (Cons c sp')
    with h have "sp = [c]" "isSpace c" by simp_all
    then show ?thesis by (simp add: set_opt set_cls)
  qed
  have 3: "st \<in> set (Um (rev sp @ rev ds @ b, u @ r))"
    using h by (auto simp: U)
  from 1 2 3 show "st \<in> set (seqs [plus (cls isDigit), opt (cls isSpace), Um] (b, a))"
    by (auto simp: seqs_Cons seqs_Nil set_seq set_eps)
qed
lemma test_duration:
  assumes U: "\<And>b a. set (Um (b, a)) = {(rev u @ b, r) | u r. a = u @ r \<and> toLowerCase u \<in> set units}"
      and units: "\<And>w. w \<in> set units \<Longrightarrow> w \<noteq> [] \<and> isWordChar (last w)"
  shows "test (seqs [wordb, plus (cls isDigit), opt (cls isSpace), Um, wordb]) s \<longleftrightarrow>
         occurs_duration units s"
proof -
  let ?D = "seqs [wordb, plus (cls isDigit), opt (cls isSpace), Um, wordb]"
  have D: "\<And>b a. set (?D (b, a)) =
     {st \<in> set (seqs [plus (cls isDigit), opt (cls isSpace), Um] (b, a)).
        isWordHd b \<noteq> isWordHd a \<and> isWordHd (fst st) \<noteq> isWordHd (snd st)}"
    using set_bounded_list [of "[plus (cls isDigit), opt (cls isSpace), Um]"] by simp
  have first: "\<And>ds x. ds \<noteq> [] \<Longrightarrow> list_all isDigit ds \<Longrightarrow> isWordHd (ds @ x)"
  proof -
    fix ds :: string and x assume "ds \<noteq> []" "list_all isDigit ds"
    then show "isWordHd (ds @ x)" by (cases ds) (auto simp: isWordHd_def isDigit_word)
  qed
  have lst: "\<And>u x. toLowerCase u \<in> set units \<Longrightarrow> isWordHd (rev u @ x)"
  proof -
    fix u x assume a: "toLowerCase u \<in> set units"
    with units have "toLowerCase u \<noteq> []" "isWordChar (last (toLowerCase u))" by auto
    moreover have "toLowerCase u = toLowerCase (toLowerCase u)" by (simp add: toLowerCase_idem)
    ultimately show "isWordHd (rev u @ x)" by (metis lower_eq_last)
  qed
  show ?thesis
  proof
    assume "test ?D s"
    then obtain pre post where s: "s = pre @ post" and ne: "?D (rev pre, post) \<noteq> []"
      by (auto simp: test_iff)
    from ne obtain st where st: "st \<in> set (?D (rev pre, post))"
      by (cases "?D (rev pre, post)") auto
    from st D have m: "st \<in> set (seqs [plus (cls isDigit), opt (cls isSpace), Um] (rev pre, post))"
      and b1: "isWordHd (rev pre) \<noteq> isWordHd post" and b2: "isWordHd (fst st) \<noteq> isWordHd (snd st)"
      by auto
    from m obtain ds sp u r where h: "st = (rev (ds @ sp @ u) @ rev pre, r)" "post = ds @ sp @ u @ r"
        "ds \<noteq> []" "list_all isDigit ds" "length sp \<le> 1" "list_all isSpace sp" "toLowerCase u \<in> set units"
      unfolding set_duration_body [OF U] by blast
    from h first have "isWordHd post" by simp
    moreover from h lst [of u "rev sp @ rev ds @ rev pre"] have "isWordHd (fst st)" by simp
    ultimately have "\<not> isWordHd (rev pre)" "\<not> isWordHd r" using b1 b2 h by auto
    with s h show "occurs_duration units s" unfolding occurs_duration_def by blast
  next
    assume "occurs_duration units s"
    then obtain pre ds sp u post where h: "s = pre @ ds @ sp @ u @ post" "ds \<noteq> []"
        "list_all isDigit ds" "length sp \<le> 1" "list_all isSpace sp" "toLowerCase u \<in> set units"
        "\<not> isWordHd (rev pre)" "\<not> isWordHd post"
      unfolding occurs_duration_def by blast
    let ?st = "(rev (ds @ sp @ u) @ rev pre, post)"
    have "?st \<in> set (seqs [plus (cls isDigit), opt (cls isSpace), Um] (rev pre, ds @ sp @ u @ post))"
      unfolding set_duration_body [OF U] using h by blast
    moreover from h first have "isWordHd (ds @ sp @ u @ post)" by simp
    moreover from h lst [of u "rev sp @ rev ds @ rev pre"] have "isWordHd (fst ?st)" by simp
    ultimately have "?st \<in> set (?D (rev pre, ds @ sp @ u @ post))"
      using h D by auto
    then have "?D (rev pre, ds @ sp @ u @ post) \<noteq> []" by auto
    with h(1) show "test ?D s" unfolding test_iff by blast
  qed
qed

lemma timeboxPattern_alt:
  "timeboxPattern =
     alt (seqs [wordb, plus (cls isDigit), opt (cls isSpace), unitGroup, wordb])
    (alt (seqs [wordb, lit_i ''daily'', wordb])
    (alt (seqs [wordb, lit_i ''weekly'', wordb])
    (alt (seqs [wordb, lit_i ''morning'', wordb])
         (seqs [wordb, lit_i ''evening'', wordb]))))"
  by (simp add: timeboxPattern_def unitGroup_def)
lemma lower_word_verbs: "v \<in> set imperativeVerbs \<Longrightarrow> lower_word v"
  by (auto simp: imperativeVerbs_def lower_word_def toLowerCase_def toLowerCase_char_def
      isWordChar_def inRange_def)
lemma lower_word_freq: "w \<in> set frequencyWords \<Longrightarrow> lower_word w"
  by (auto simp: frequencyWords_def lower_word_def toLowerCase_def toLowerCase_char_def
      isWordChar_def inRange_def)
lemma unitWords_ok: "w \<in> set unitWords \<Longrightarrow> w \<noteq> [] \<and> isWordChar (last w)"
  by (auto simp: unitWords_def isWordChar_def inRange_def)
lemma test_timeboxPattern:
  "test timeboxPattern f \<longleftrightarrow>
     occurs_duration unitWords f \<or> (\<exists>w \<in> set frequencyWords. occurs_word_ci w f)"
proof -
  have U: "\<And>b a. set (unitGroup (b, a)) =
      {(rev u @ b, r) | u r. a = u @ r \<and> toLowerCase u \<in> set unitWords}"
    by (simp add: set_unitGroup unitWords_def)
  have d: "test (seqs [wordb, plus (cls isDigit), opt (cls isSpace), unitGroup, wordb]) f \<longleftrightarrow>
      occurs_duration unitWords f"
    by (rule test_duration [OF U unitWords_ok])
  have w: "\<And>w. w \<in> set frequencyWords \<Longrightarrow> test (seqs [wordb, lit_i w, wordb]) f \<longleftrightarrow> occurs_word_ci w f"
    by (rule test_word_i [OF lower_word_freq])
  show ?thesis
    unfolding timeboxPattern_alt test_alt d
    using w by (simp add: frequencyWords_def)
qed
lemma validateV3_iff:
  "validateV3_Actionability r = Inr () \<longleftrightarrow> actionable unitWords (focus r)"
proof -
  have "list_ex (\<lambda>verb. test (verbPattern verb) (toLowerCase (focus r))) imperativeVerbs \<longleftrightarrow>
      (\<exists>v \<in> set imperativeVerbs. occurs_word_ci v (focus r))"
    using test_verbPattern_lower [OF lower_word_verbs] by (simp add: list_ex_iff)
  then show ?thesis
    by (simp add: validateV3_Actionability_def Let_def actionable_def test_timeboxPattern)
qed

section \<open>V3: actionability\<close>

lemma star_cls_Nil: "star (cls P) (b, []) = [(b, [])]"
  by (subst star.simps) (simp add: cls_def)

lemma star_cls_Cons:
  "star (cls P) (b, c # a) = (if P c then star (cls P) (c # b, a) @ [(b, c # a)] else [(b, c # a)])"
  by (subst star.simps) (simp add: cls_def)

lemmas re_eval = star_cls_Nil star_cls_Cons cls_def chr_def chr_i_def eps_def seq_def alt_def opt_def
  plus_def seqs_def lit_i_def isWordHd_def wordb_def test_def
  isDigit_def isWordChar_def isSpace_def toLowerCase_char_def toLowerCase_def inRange_def
  char_of_eq_iff

lemma V3_rejects_example:
  "validateV3_Actionability \<lparr> summary = s, focus = ''Try your best to keep learning.'', otherKeys = ks \<rparr>
     = Inl ActionabilityError_NoVerb"
  by (simp add: validateV3_Actionability_def imperativeVerbs_def verbPattern_def re_eval)

lemma V3_accepts_example:
  "validateV3_Actionability \<lparr> summary = s, focus = ''Schedule a 15-minute daily review each evening.'', otherKeys = ks \<rparr>
     = Inr ()"
proof -
  have 1: "occurs_word_ci ''schedule'' ''Schedule a 15-minute daily review each evening.''"
    unfolding occurs_word_ci_def
    by (rule_tac x = "[]" in exI, rule_tac x = "''Schedule''" in exI,
        rule_tac x = "'' a 15-minute daily review each evening.''" in exI)
       (simp add: toLowerCase_def toLowerCase_char_def inRange_def char_of_eq_iff isWordHd_def isWordChar_def)
  have 2: "occurs_word_ci ''daily'' ''Schedule a 15-minute daily review each evening.''"
    unfolding occurs_word_ci_def
    by (rule_tac x = "''Schedule a 15-minute ''" in exI, rule_tac x = "''daily''" in exI,
        rule_tac x = "'' review each evening.''" in exI)
       (simp add: toLowerCase_def toLowerCase_char_def inRange_def char_of_eq_iff isWordHd_def isWordChar_def)
  from 1 2 have "actionable unitWords ''Schedule a 15-minute daily review each evening.''"
    by (auto simp: actionable_def imperativeVerbs_def frequencyWords_def)
  then show ?thesis by (simp add: validateV3_iff)
qed

lemma claimedUnitWords_ok: "w \<in> set claimedUnitWords \<Longrightarrow> w \<noteq> [] \<and> isWordChar (last w)"
  by (auto simp: claimedUnitWords_def isWordChar_def inRange_def)

lemma occurs_duration_claimed:
  "occurs_duration claimedUnitWords s \<longleftrightarrow>
   test (seqs [wordb, plus (cls isDigit), opt (cls isSpace), unitsPattern claimedUnitWords, wordb]) s"
proof -
  have "map toLowerCase claimedUnitWords = claimedUnitWords"
    by (simp add: claimedUnitWords_def toLowerCase_def toLowerCase_char_def inRange_def)
  then have U: "\<And>b a. set (unitsPattern claimedUnitWords (b, a)) =
      {(rev u @ b, r) | u r. a = u @ r \<and> toLowerCase u \<in> set claimedUnitWords}"
    by (simp add: set_unitsPattern)
  show ?thesis by (rule test_duration [OF U claimedUnitWords_ok, symmetric])
qed

lemma plan_1_minute_accepted:
  "validateV3_Actionability \<lparr> summary = [], focus = ''Plan 1 minute'', otherKeys = [] \<rparr> = Inr ()"
  by (simp add: validateV3_Actionability_def imperativeVerbs_def verbPattern_def timeboxPattern_def
      unitGroup_def re_eval)

lemma plan_1_minute_not_claimed:
  "\<not> actionable claimedUnitWords ''Plan 1 minute''"
proof -
  have "\<not> occurs_duration claimedUnitWords ''Plan 1 minute''"
    unfolding occurs_duration_claimed
    by (simp add: claimedUnitWords_def unitsPattern_def re_eval)
  moreover have "\<not> (\<exists>w \<in> set frequencyWords. occurs_word_ci w ''Plan 1 minute'')"
    using test_word_i [OF lower_word_freq, of _ "''Plan 1 minute''", symmetric]
    by (simp add: frequencyWords_def re_eval)
  ultimately show ?thesis by (simp add: actionable_def)
qed

text \<open>
  Claim C9, as amended. \<open>validateV3_Actionability\<close> accepts a result exactly when its focus has
  a whole-word occurrence, in any letter case, of one of the twelve imperative verbs, and
  a time box: a whole-word occurrence of daily, weekly, morning or evening, or digits, at
  most one white space character and one of the units min, minute, minutes, hour, hours.
  It rejects the focus "Try your best to keep learning." and accepts
  "Schedule a 15-minute daily review each evening.".
\<close>

theorem validateV3_actionable:
  "(validateV3_Actionability r = Inr () \<longleftrightarrow> actionable unitWords (focus r)) \<and>
   validateV3_Actionability
     \<lparr> summary = s, focus = ''Try your best to keep learning.'', otherKeys = ks \<rparr>
     = Inl ActionabilityError_NoVerb \<and>
   validateV3_Actionability
     \<lparr> summary = s, focus = ''Schedule a 15-minute daily review each evening.'', otherKeys = ks \<rparr>
     = Inr ()"
  using validateV3_iff [of r] V3_rejects_example [of s ks] V3_accepts_example [of s ks]
  by simp

text \<open>
  With the units as the claim lists them (min, minutes, hour, hours) the equivalence fails:
  the focus "Plan 1 minute" is accepted.
\<close>

theorem validateV3_claimed_units_counterexample:
  "\<not> (validateV3_Actionability \<lparr> summary = [], focus = ''Plan 1 minute'', otherKeys = [] \<rparr> = Inr ()
      \<longleftrightarrow> actionable claimedUnitWords ''Plan 1 minute'')"
  using plan_1_minute_accepted plan_1_minute_not_claimed by simp

section \<open>V1: shape and word limits\<close>

lemma hd_star_cls:
  "\<exists>rest. star (cls P) (b, a) = (rev (takeWhile P a) @ b, dropWhile P a) # rest"
proof (induction a arbitrary: b)
  case Nil
  show ?case by (simp add: star_cls_Nil)
next
  case (Cons c a)
  from Cons.IH [of "c # b"] show ?case by (auto simp: star_cls_Cons)
qed

lemma wsPattern_space:
  "isSpace c \<Longrightarrow> \<exists>rest. wsPattern (b, c # a) = (rev (takeWhile isSpace a) @ c # b, dropWhile isSpace a) # rest"
  using hd_star_cls [of isSpace "c # b" a]
  by (auto simp: wsPattern_def plus_def seq_def cls_def)

lemma wsPattern_nonspace: "\<not> isSpace c \<Longrightarrow> wsPattern (b, c # a) = []"
  by (simp add: wsPattern_def plus_def seq_def cls_def)

lemma split_loop_ws_space:
  assumes "isSpace c"
  shows "split_loop wsPattern b (c # a) cur =
         cur # split_loop wsPattern (rev (takeWhile isSpace a) @ c # b) (dropWhile isSpace a) []"
proof -
  from wsPattern_space [OF assms, of b a] obtain rest where
    "wsPattern (b, c # a) = (rev (takeWhile isSpace a) @ c # b, dropWhile isSpace a) # rest" by blast
  moreover have "length (dropWhile isSpace a) < length (c # a)"
    by (simp add: length_dropWhile_le le_imp_less_Suc)
  ultimately show ?thesis by simp
qed

lemma split_loop_ws_nonspace:
  "\<not> isSpace c \<Longrightarrow> split_loop wsPattern b (c # a) cur = split_loop wsPattern (c # b) a (cur @ [c])"
  by (simp add: wsPattern_nonspace)

lemma ws_words_acc_dropWhile: "ws_words_acc [] (dropWhile isSpace s) = ws_words_acc [] s"
  by (induction s) auto

lemma split_loop_ws_words:
  "rest = [] \<or> \<not> isSpace (last rest) \<Longrightarrow> cur \<noteq> [] \<or> (rest \<noteq> [] \<and> \<not> isSpace (hd rest)) \<Longrightarrow>
   split_loop wsPattern b rest cur = ws_words_acc cur rest"
proof (induction rest arbitrary: b cur rule: length_induct)
  case (1 rest)
  have IH: "\<And>ys b' cur'. length ys < length rest \<Longrightarrow> ys = [] \<or> \<not> isSpace (last ys) \<Longrightarrow>
      cur' \<noteq> [] \<or> (ys \<noteq> [] \<and> \<not> isSpace (hd ys)) \<Longrightarrow>
      split_loop wsPattern b' ys cur' = ws_words_acc cur' ys"
    using 1(1) by blast
  show ?case
  proof (cases rest)
    case Nil
    with 1 show ?thesis by simp
  next
    case (Cons c a)
    show ?thesis
    proof (cases "isSpace c")
      case False
      have "a = [] \<or> \<not> isSpace (last a)" using 1(2) Cons by (auto split: if_splits)
      moreover have "length a < length rest" using Cons by simp
      ultimately have "split_loop wsPattern (c # b) a (cur @ [c]) = ws_words_acc (cur @ [c]) a"
        by (intro IH) auto
      moreover have "split_loop wsPattern b (c # a) cur = split_loop wsPattern (c # b) a (cur @ [c])"
        using False by (rule split_loop_ws_nonspace)
      moreover have "ws_words_acc cur (c # a) = ws_words_acc (cur @ [c]) a"
        using False by simp
      ultimately show ?thesis using Cons by simp
    next
      case True
      with 1 Cons have cur: "cur \<noteq> []" by auto
      let ?d = "dropWhile isSpace a"
      from 1(2) Cons True have last: "\<not> isSpace (last (c # a))" by simp
      with True have "a \<noteq> []" by auto
      with last have la: "\<not> isSpace (last a)" by simp
      have dne: "?d \<noteq> []"
      proof
        assume "?d = []"
        then have "\<forall>x \<in> set a. isSpace x" by (simp add: dropWhile_eq_Nil_conv)
        with \<open>a \<noteq> []\<close> la show False by (meson last_in_set)
      qed
      then have hd: "\<not> isSpace (hd ?d)" by (simp add: hd_dropWhile)
      obtain t where t: "a = t @ ?d" by (metis takeWhile_dropWhile_id)
      with dne have "last ?d = last a" by (metis last_appendR)
      with la have ld: "\<not> isSpace (last ?d)" by simp
      have "length ?d < length rest" using Cons by (simp add: length_dropWhile_le le_imp_less_Suc)
      with dne hd ld have
        "split_loop wsPattern (rev (takeWhile isSpace a) @ c # b) ?d [] = ws_words_acc [] ?d"
        by (intro IH) auto
      moreover have "split_loop wsPattern b (c # a) cur =
          cur # split_loop wsPattern (rev (takeWhile isSpace a) @ c # b) ?d []"
        using True by (rule split_loop_ws_space)
      moreover have "ws_words_acc cur (c # a) = cur # ws_words_acc [] ?d"
        using True cur by (simp add: ws_words_acc_dropWhile)
      ultimately show ?thesis using Cons by simp
    qed
  qed
qed

lemma trim_props: "trim s = [] \<or> (\<not> isSpace (hd (trim s)) \<and> \<not> isSpace (last (trim s)))"
proof (cases "trim s = []")
  case True
  then show ?thesis by simp
next
  case False
  let ?t = "dropWhile isSpace (rev (dropWhile isSpace s))"
  from False have ne: "?t \<noteq> []" by (simp add: trim_def)
  then have "\<not> isSpace (hd ?t)" by (simp add: hd_dropWhile)
  with ne have l: "\<not> isSpace (last (trim s))" by (simp add: trim_def last_rev)
  have d: "dropWhile isSpace s \<noteq> []"
  proof
    assume "dropWhile isSpace s = []"
    with ne show False by simp
  qed
  then have h: "\<not> isSpace (hd (dropWhile isSpace s))" by (simp add: hd_dropWhile)
  have "rev (dropWhile isSpace s) = takeWhile isSpace (rev (dropWhile isSpace s)) @ ?t"
    by simp
  then have "dropWhile isSpace s = rev ?t @ rev (takeWhile isSpace (rev (dropWhile isSpace s)))"
    by (metis rev_append rev_rev_ident)
  then have "hd (dropWhile isSpace s) = hd (rev ?t)" using ne by (metis hd_append2 rev_is_Nil_conv)
  with h have "\<not> isSpace (hd (trim s))" by (simp add: trim_def)
  with l show ?thesis by simp
qed

lemma trim_Nil_iff: "trim s = [] \<longleftrightarrow> list_all isSpace s"
proof
  assume "trim s = []"
  then have "dropWhile isSpace (rev (dropWhile isSpace s)) = []"
    unfolding trim_def by (simp only: rev_is_Nil_conv)
  then have "\<forall>x \<in> set (rev (dropWhile isSpace s)). isSpace x"
    by (simp only: dropWhile_eq_Nil_conv)
  then have all: "\<forall>x \<in> set (dropWhile isSpace s). isSpace x"
    by (simp only: set_rev)
  have "dropWhile isSpace s = []"
  proof (rule ccontr)
    assume ne: "dropWhile isSpace s \<noteq> []"
    then have "\<not> isSpace (hd (dropWhile isSpace s))" by (simp add: hd_dropWhile)
    with ne all show False by (meson list.set_sel(1))
  qed
  then show "list_all isSpace s" by (simp add: dropWhile_eq_Nil_conv list_all_iff)
next
  assume "list_all isSpace s"
  then have "dropWhile isSpace s = []" by (simp add: dropWhile_eq_Nil_conv list_all_iff)
  then show "trim s = []" by (auto simp: trim_def dest: set_dropWhileD)
qed

lemma ws_words_acc_append_space:
  "list_all isSpace t \<Longrightarrow> ws_words_acc cur (s @ t) = ws_words_acc cur s"
proof (induction s arbitrary: cur)
  case Nil
  then show ?case by (induction t arbitrary: cur) auto
next
  case (Cons c s)
  then show ?case by simp
qed

lemma ws_words_trim: "ws_words (trim s) = ws_words s"
proof -
  let ?d = "dropWhile isSpace s"
  have "rev ?d = takeWhile isSpace (rev ?d) @ dropWhile isSpace (rev ?d)" by simp
  then have "?d = trim s @ rev (takeWhile isSpace (rev ?d))"
    unfolding trim_def by (metis rev_append rev_rev_ident)
  moreover have "list_all isSpace (rev (takeWhile isSpace (rev ?d)))"
    by (simp add: list_all_iff) (meson set_takeWhileD)
  ultimately have "ws_words_acc [] ?d = ws_words_acc [] (trim s)"
    by (metis ws_words_acc_append_space)
  then show ?thesis by (simp add: ws_words_def ws_words_acc_dropWhile)
qed

lemma split_trim: "trim s \<noteq> [] \<Longrightarrow> split wsPattern (trim s) = ws_words s"
proof -
  assume ne: "trim s \<noteq> []"
  with trim_props [of s] have "\<not> isSpace (hd (trim s))" "\<not> isSpace (last (trim s))" by auto
  with ne have "split_loop wsPattern [] (trim s) [] = ws_words_acc [] (trim s)"
    by (intro split_loop_ws_words) auto
  then show ?thesis using ws_words_trim [of s] by (simp add: split_def ws_words_def)
qed

lemma wordCount_trim:
  "trim s \<noteq> [] \<Longrightarrow> length (split wsPattern (trim s)) = length (ws_words s)"
  by (simp add: split_trim)

lemma validateV1_iff:
  assumes "otherKeys r = []"
  shows "validateV1_ShapeAndLimits r \<noteq> Inr () \<longleftrightarrow>
     blank (summary r) \<or> blank (focus r) \<or>
     120 < length (ws_words (summary r)) \<or> 60 < length (ws_words (focus r))"
proof (cases "blank (summary r) \<or> blank (focus r)")
  case True
  then have "trim (summary r) = [] \<or> trim (focus r) = []"
    by (simp add: blank_def trim_Nil_iff)
  with True assms show ?thesis
    by (auto simp: validateV1_ShapeAndLimits_def Let_def allowedKeys_def)
next
  case False
  then have ne: "trim (summary r) \<noteq> []" "trim (focus r) \<noteq> []"
    by (simp_all add: blank_def trim_Nil_iff)
  then have "summary r \<noteq> []" "focus r \<noteq> []" by (auto simp: trim_def)
  with False ne assms show ?thesis
    by (simp add: validateV1_ShapeAndLimits_def Let_def allowedKeys_def wordCount_trim)
qed

lemma isSpace_simps: "isSpace CHR '' ''" "\<not> isSpace CHR ''o''" "\<not> isSpace CHR ''k''"
  by (simp_all add: isSpace_def inRange_def)

lemma ws_words_repeated: "ws_words (repeated_words n) = replicate n ''ok''"
  by (induction n) (simp_all add: ws_words_def repeated_words_def isSpace_simps)

lemma not_blank_repeated: "0 < n \<Longrightarrow> \<not> blank (repeated_words n)"
  by (cases n) (simp_all add: blank_def repeated_words_def isSpace_simps)

lemma ex_focus: "\<not> blank ''Plan 15 minutes daily.''" "length (ws_words ''Plan 15 minutes daily.'') = 4"
  by (simp_all add: blank_def ws_words_def isSpace_def inRange_def)

text \<open>
  Claim C7. For a parsed result (an object with no key but summary and focus),
  \<open>validateV1_ShapeAndLimits\<close> rejects exactly when the summary or the focus is empty after
  trimming (all its characters are white space), or the summary has more than 120
  whitespace-delimited words, or the focus has more than 60. So a 121-word summary is
  rejected, and a summary of exactly 120 words with a valid focus passes.
\<close>

theorem validateV1_limits:
  assumes "otherKeys r = []"
  shows "(validateV1_ShapeAndLimits r \<noteq> Inr () \<longleftrightarrow>
            blank (summary r) \<or> blank (focus r) \<or>
            120 < length (ws_words (summary r)) \<or> 60 < length (ws_words (focus r))) \<and>
         (length (ws_words (summary r)) = 121 \<longrightarrow> validateV1_ShapeAndLimits r \<noteq> Inr ()) \<and>
         (length (ws_words (summary r)) = 120 \<and> \<not> blank (focus r) \<and>
            length (ws_words (focus r)) \<le> 60 \<longrightarrow> validateV1_ShapeAndLimits r = Inr ())"
proof -
  note iff = validateV1_iff [OF assms]
  have "length (ws_words (summary r)) = 120 \<Longrightarrow> \<not> blank (summary r)"
    by (auto simp: blank_def ws_words_def dest!: ws_words_acc_append_space [of "summary r" "[]" "[]", simplified])
  with iff show ?thesis by auto
qed

theorem validateV1_limits_witness:
  "otherKeys (ex_result 120) = [] \<and> validateV1_ShapeAndLimits (ex_result 120) = Inr () \<and>
   otherKeys (ex_result 121) = [] \<and> validateV1_ShapeAndLimits (ex_result 121) \<noteq> Inr ()"
proof -
  have k: "otherKeys (ex_result 120) = []" "otherKeys (ex_result 121) = []"
    by (simp_all add: ex_result_def)
  have "validateV1_ShapeAndLimits (ex_result 120) = Inr ()"
    using validateV1_limits [OF k(1)] ex_focus
    by (simp add: ex_result_def ws_words_repeated)
  moreover have "validateV1_ShapeAndLimits (ex_result 121) \<noteq> Inr ()"
    using validateV1_limits [OF k(2)]
    by (simp add: ex_result_def ws_words_repeated)
  ultimately show ?thesis using k by simp
qed

section \<open>Days and calendar dates\<close>

lemma doc_bounds:
  fixes doe :: int
  assumes "0 \<le> doe" "doe \<le> 146096"
  defines "c \<equiv> min 3 (doe div 36524)"
  shows "0 \<le> c \<and> c \<le> 3 \<and> 0 \<le> doe - c * 36524 \<and> doe - c * 36524 \<le> 36524"
proof (cases "doe div 36524 \<le> 3")
  case True
  then have c: "c = doe div 36524" by (simp add: c_def)
  have "0 \<le> doe div 36524" using assms(1) by simp
  moreover have "doe - (doe div 36524) * 36524 = doe mod 36524"
    by (simp add: minus_div_mult_eq_mod)
  ultimately show ?thesis using True c by simp
next
  case False
  then have c: "c = 3" by (simp add: c_def)
  from False have "4 \<le> doe div 36524" by simp
  then have "146096 \<le> doe" by linarith
  with assms c show ?thesis by simp
qed

lemma doy_bounds:
  fixes doc :: int
  assumes "0 \<le> doc" "doc \<le> 36524"
  defines "doq \<equiv> doc mod 1461"
  defines "yy \<equiv> min 3 (doq div 365)"
  shows "0 \<le> doc div 1461 \<and> doc div 1461 \<le> 24 \<and> 0 \<le> yy \<and> yy \<le> 3 \<and>
         0 \<le> doq - 365 * yy \<and> doq - 365 * yy \<le> 365"
proof -
  have q: "0 \<le> doq" "doq \<le> 1460" unfolding doq_def by simp_all
  have d: "0 \<le> doc div 1461 \<and> doc div 1461 \<le> 24" using assms(1,2) by linarith
  have y: "0 \<le> yy \<and> yy \<le> 3" using q unfolding yy_def by simp
  show ?thesis
  proof (cases "doq div 365 \<le> 3")
    case True
    then have "yy = doq div 365" by (simp add: yy_def)
    then have "doq - 365 * yy = doq mod 365" by (simp add: minus_mult_div_eq_mod)
    with d y show ?thesis by simp
  next
    case False
    then have yy: "yy = 3" by (simp add: yy_def)
    from False have "4 \<le> doq div 365" by simp
    then have "1460 \<le> doq" by linarith
    with q yy d show ?thesis by simp
  qed
qed

lemma month_day_bounds:
  fixes doy :: int
  assumes "0 \<le> doy" "doy \<le> 365"
  defines "mp \<equiv> (5 * doy + 2) div 153"
  defines "d \<equiv> doy - (153 * mp + 2) div 5 + 1"
  defines "m \<equiv> (if mp < 10 then mp + 3 else mp - 9)"
  shows "1 \<le> m \<and> m \<le> 12 \<and> 1 \<le> d \<and> d \<le> 31 \<and> (if m > 2 then m - 3 else m + 9) = mp"
proof -
  have mp: "0 \<le> mp" "mp \<le> 11" using assms(1,2) unfolding mp_def by linarith+
  have 1: "153 * mp \<le> 5 * doy + 2" unfolding mp_def by linarith
  have 2: "5 * doy + 2 < 153 * mp + 153" unfolding mp_def by linarith
  define x where "x = (153 * mp + 2) div 5"
  have 3: "5 * x \<le> 153 * mp + 2" "153 * mp + 2 < 5 * x + 5" unfolding x_def by linarith+
  have "1 \<le> d \<and> d \<le> 31" using 1 2 3 unfolding d_def x_def [symmetric] by linarith
  moreover have "1 \<le> m \<and> m \<le> 12 \<and> (if m > 2 then m - 3 else m + 9) = mp"
    using mp unfolding m_def by auto
  ultimately show ?thesis by simp
qed

lemma year_of_era:
  fixes era c q yy :: int
  assumes "0 \<le> c" "c \<le> 3" "0 \<le> q" "q \<le> 24" "0 \<le> yy" "yy \<le> 3"
  shows "(400 * era + 100 * c + 4 * q + yy) div 400 = era"
    and "(400 * era + 100 * c + 4 * q + yy) mod 400 = 100 * c + 4 * q + yy"
    and "(100 * c + 4 * q + yy) div 4 = 25 * c + q"
    and "(100 * c + 4 * q + yy) div 100 = c"
proof -
  have b: "0 \<le> 100 * c + 4 * q + yy" "100 * c + 4 * q + yy < 400" using assms by linarith+
  have e: "400 * era + 100 * c + 4 * q + yy = (100 * c + 4 * q + yy) + era * 400" by simp
  show "(400 * era + 100 * c + 4 * q + yy) div 400 = era"
    unfolding e using b by (simp add: div_pos_pos_trivial)
  show "(400 * era + 100 * c + 4 * q + yy) mod 400 = 100 * c + 4 * q + yy"
    unfolding e using b by (simp add: mod_pos_pos_trivial)
  have e4: "100 * c + 4 * q + yy = yy + (25 * c + q) * 4" by simp
  show "(100 * c + 4 * q + yy) div 4 = 25 * c + q"
    unfolding e4 using assms by (simp add: div_pos_pos_trivial)
  have e100: "100 * c + 4 * q + yy = (4 * q + yy) + c * 100" by simp
  have "0 \<le> 4 * q + yy" "4 * q + yy < 100" using assms by linarith+
  then show "(100 * c + 4 * q + yy) div 100 = c"
    unfolding e100 by (simp add: div_pos_pos_trivial)
qed

text \<open>The parts of a day number, named as in \<open>civil_from_days\<close>.\<close>

lemma civil_from_days_parts:
  fixes n :: int
  defines "z \<equiv> n + 719468"
  defines "era \<equiv> z div 146097"
  defines "doe \<equiv> z mod 146097"
  defines "c \<equiv> min 3 (doe div 36524)"
  defines "doc \<equiv> doe - c * 36524"
  defines "q \<equiv> doc div 1461"
  defines "doq \<equiv> doc mod 1461"
  defines "yy \<equiv> min 3 (doq div 365)"
  defines "doy \<equiv> doq - 365 * yy"
  defines "mp \<equiv> (5 * doy + 2) div 153"
  defines "d \<equiv> doy - (153 * mp + 2) div 5 + 1"
  defines "m \<equiv> (if mp < 10 then mp + 3 else mp - 9)"
  defines "y0 \<equiv> 400 * era + 100 * c + 4 * q + yy"
  shows "civil_from_days n = (if m \<le> 2 then y0 + 1 else y0, m, d)"
    and "1 \<le> m \<and> m \<le> 12 \<and> 1 \<le> d \<and> d \<le> 31"
    and "days_from_civil (if m \<le> 2 then y0 + 1 else y0) m dt = n + (dt - d)"
proof -
  show "civil_from_days n = (if m \<le> 2 then y0 + 1 else y0, m, d)"
    unfolding civil_from_days_def Let_def y0_def m_def d_def mp_def doy_def yy_def doq_def q_def
      doc_def c_def doe_def era_def z_def by (rule refl)
  have doe: "0 \<le> doe" "doe \<le> 146096" unfolding doe_def by simp_all
  from doc_bounds [OF doe] have c: "0 \<le> c" "c \<le> 3" and doc: "0 \<le> doc" "doc \<le> 36524"
    unfolding c_def doc_def by simp_all
  from doy_bounds [OF doc] have qb: "0 \<le> q" "q \<le> 24" and yb: "0 \<le> yy" "yy \<le> 3"
    and doy: "0 \<le> doy" "doy \<le> 365"
    unfolding q_def yy_def doy_def doq_def by simp_all
  from month_day_bounds [OF doy] have md: "1 \<le> m \<and> m \<le> 12 \<and> 1 \<le> d \<and> d \<le> 31"
    and mp': "(if m > 2 then m - 3 else m + 9) = mp"
    unfolding m_def d_def mp_def by simp_all
  show "1 \<le> m \<and> m \<le> 12 \<and> 1 \<le> d \<and> d \<le> 31" by (rule md)
  note ye = year_of_era [OF c qb yb]
  have y': "(if m \<le> 2 then (if m \<le> 2 then y0 + 1 else y0) - 1 else (if m \<le> 2 then y0 + 1 else y0)) = y0"
    by simp
  have dq: "doc = 1461 * q + doq" unfolding q_def doq_def by simp
  have zz: "z = era * 146097 + doe" unfolding era_def doe_def by simp
  have dd: "(153 * mp + 2) div 5 + d - 1 = doy" unfolding d_def by simp
  have "days_from_civil (if m \<le> 2 then y0 + 1 else y0) m dt =
      era * 146097 + ((100 * c + 4 * q + yy) * 365 + (25 * c + q) - c + ((153 * mp + 2) div 5 + dt - 1)) - 719468"
    unfolding days_from_civil_def Let_def y' mp' unfolding y0_def ye by (rule refl)
  also have "\<dots> = n + (dt - d)"
  proof -
    have "era * 146097 + ((100 * c + 4 * q + yy) * 365 + (25 * c + q) - c + (x + dt - 1)) - 719468 =
        n + (dt - d)"
      if "doe - c * 36524 = 1461 * q + doq" "n + 719468 = era * 146097 + doe"
         "x + d - 1 = doq - 365 * yy" for x :: int
      using that by (simp add: algebra_simps)
    from this [OF dq [unfolded doc_def] zz [unfolded z_def] dd [unfolded doy_def]]
    show ?thesis .
  qed
  finally show "days_from_civil (if m \<le> 2 then y0 + 1 else y0) m dt = n + (dt - d)" .
qed

lemma civil_from_days_bounds:
  "case civil_from_days n of (y, m, d) \<Rightarrow> 1 \<le> m \<and> m \<le> 12 \<and> 1 \<le> d \<and> d \<le> 31"
  using civil_from_days_parts(2) [of n] unfolding civil_from_days_parts(1) [of n]
  by (simp only: prod.case)

lemma days_from_civil_shift:
  "civil_from_days n = (y, m, d) \<Longrightarrow> days_from_civil y m dt = n + (dt - d)"
  using civil_from_days_parts(3) [of n dt] unfolding civil_from_days_parts(1) [of n]
  by (metis prod.inject)

text \<open>\<open>setDate(getDate() + i)\<close> moves the local time by \<open>i\<close> days.\<close>

lemma addDays_eq: "addDays tz t i = UTC tz (LocalTime tz t + i * msPerDay)"
proof -
  obtain y m d where c: "civil_from_days (LocalTime tz t div msPerDay) = (y, m, d)"
    by (cases "civil_from_days (LocalTime tz t div msPerDay)")
  have "MakeDay y m (d + i) = LocalTime tz t div msPerDay + i"
    using days_from_civil_shift [OF c, of 1] by (simp add: MakeDay_def)
  then have "MakeDay y m (d + i) * msPerDay + LocalTime tz t mod msPerDay =
      LocalTime tz t + i * msPerDay"
    by (simp add: algebra_simps)
  then show ?thesis by (simp add: addDays_def setDate_def getDate_def c)
qed

lemma addDays_same_offset:
  assumes "tzaLocal tz (t + tzaUTC tz t + i * msPerDay) = tzaUTC tz t"
  shows "addDays tz t i = t + i * msPerDay"
  using assms by (simp add: addDays_eq UTC_def LocalTime_def)

lemma addDays_0_same_offset:
  assumes "tzaLocal tz (t + tzaUTC tz t) = tzaUTC tz t"
  shows "addDays tz t 0 = t"
  using assms by (simp add: addDays_eq UTC_def LocalTime_def)

section \<open>V2: links and the week window\<close>

lemma concat_map_concat:
  "concat (map f (concat xss)) = concat (map (\<lambda>xs. concat (map f xs)) xss)"
  by (induction xss) auto

lemma seq_assoc: "seq (seq m1 m2) m3 = seq m1 (seq m2 m3)"
proof (rule ext)
  fix st
  have "seq m2 m3 = (\<lambda>s. concat (map m3 (m2 s)))" by (rule ext) (simp add: seq_def)
  then show "seq (seq m1 m2) m3 st = seq m1 (seq m2 m3) st"
    by (simp add: seq_def concat_map_concat comp_def)
qed

lemma seq_eps: "seq m eps = m"
proof (rule ext)
  fix st
  have "\<And>xs :: rstate list. concat (map eps xs) = xs"
  proof -
    fix xs :: "rstate list" show "concat (map eps xs) = xs"
      by (induction xs) (simp_all add: eps_def)
  qed
  then show "seq m eps st = m st" by (simp add: seq_def)
qed

lemma set_urlPattern:
  "set (urlPattern (b, a)) =
     {(rev u @ b, r) | u r. a = u @ r \<and> toLowerCase u \<in> {''http://'', ''https://''}}"
proof -
  have assoc: "urlPattern = seq (seq (lit_i ''http'') (opt (chr_i CHR ''s''))) (lit_i ''://'')"
    by (simp add: urlPattern_def seqs_Cons seqs_Nil seq_assoc seq_eps)
  show ?thesis
  proof (rule set_eqI, rule iffI)
    fix st assume "st \<in> set (urlPattern (b, a))"
    then obtain u1 r1 where 1: "a = u1 @ r1"
        "toLowerCase u1 = ''http'' \<or> toLowerCase u1 = ''https''"
        and st: "st \<in> set (lit_i ''://'' (rev u1 @ b, r1))"
      unfolding assoc set_seq [of "seq _ _"] set_lit_i_opt by (auto simp: lower_url_parts)
    from st obtain u2 r where 2: "st = (rev u2 @ rev u1 @ b, r)" "r1 = u2 @ r" "toLowerCase u2 = ''://''"
      by (auto simp: set_lit_i_lower lower_url_parts)
    from 1 2 have "st = (rev (u1 @ u2) @ b, r) \<and> a = (u1 @ u2) @ r \<and>
        toLowerCase (u1 @ u2) \<in> {''http://'', ''https://''}"
      by (auto simp: toLowerCase_append)
    then show "st \<in> {(rev u @ b, r) | u r. a = u @ r \<and> toLowerCase u \<in> {''http://'', ''https://''}}"
      by blast
  next
    fix st assume "st \<in> {(rev u @ b, r) | u r. a = u @ r \<and> toLowerCase u \<in> {''http://'', ''https://''}}"
    then obtain u r where h: "st = (rev u @ b, r)" "a = u @ r"
        "toLowerCase u = ''http://'' \<or> toLowerCase u = ''https://''"
      by blast
    from h(3) obtain u1 u2 where u: "u = u1 @ u2" "toLowerCase u2 = ''://''"
        "toLowerCase u1 = ''http'' \<or> toLowerCase u1 = ''https''"
    proof
      assume "toLowerCase u = ''http://''"
      then have "toLowerCase u = ''http'' @ ''://''" by simp
      from toLowerCase_split [OF this] show ?thesis using that by blast
    next
      assume "toLowerCase u = ''https://''"
      then have "toLowerCase u = ''https'' @ ''://''" by simp
      from toLowerCase_split [OF this] show ?thesis using that by blast
    qed
    have "(rev u1 @ b, u2 @ r) \<in> set (seq (lit_i ''http'') (opt (chr_i CHR ''s'')) (b, a))"
      unfolding set_lit_i_opt using h u by (auto simp: lower_url_parts)
    moreover have "st \<in> set (lit_i ''://'' (rev u1 @ b, u2 @ r))"
      using h u by (auto simp: set_lit_i_lower lower_url_parts)
    ultimately show "st \<in> set (urlPattern (b, a))"
      unfolding assoc set_seq [of "seq _ _"] by blast
  qed
qed

lemma test_urlPattern: "test urlPattern s \<longleftrightarrow> contains_url s"
proof
  assume "test urlPattern s"
  then obtain pre post where s: "s = pre @ post" and ne: "urlPattern (rev pre, post) \<noteq> []"
    by (auto simp: test_iff)
  from ne obtain st where "st \<in> set (urlPattern (rev pre, post))"
    by (cases "urlPattern (rev pre, post)") auto
  then obtain u r where "post = u @ r" "toLowerCase u \<in> {''http://'', ''https://''}"
    unfolding set_urlPattern by blast
  with s show "contains_url s" unfolding contains_url_def by blast
next
  assume "contains_url s"
  then obtain pre u post where h: "s = pre @ u @ post" "toLowerCase u \<in> {''http://'', ''https://''}"
    unfolding contains_url_def by blast
  then have "(rev u @ rev pre, post) \<in> set (urlPattern (rev pre, u @ post))"
    unfolding set_urlPattern by blast
  then have "urlPattern (rev pre, u @ post) \<noteq> []" by auto
  with h(1) show "test urlPattern s" unfolding test_iff by blast
qed



lemma isoDatePattern_unfold:
  "isoDatePattern =
     seq wordb (seq (cls isDigit) (seq (cls isDigit) (seq (cls isDigit) (seq (cls isDigit)
       (seq (chr CHR ''-'') (seq (cls isDigit) (seq (cls isDigit) (seq (chr CHR ''-'')
       (seq (cls isDigit) (seq (cls isDigit) wordb))))))))))"
  by (simp add: isoDatePattern_def seqs_Cons seqs_Nil seq_assoc seq_eps eval_nat_numeral)

lemma seq_cls_Cons: "seq (cls P) m (b, c # a) = (if P c then m (c # b, a) else [])"
  by (simp add: seq_def cls_def)

lemma seq_cls_Nil: "seq (cls P) m (b, []) = []"
  by (simp add: seq_def cls_def)

lemma seq_wordb: "seq wordb m (b, a) = (if isWordHd b \<noteq> isWordHd a then m (b, a) else [])"
  by (simp add: seq_def wordb_def)






lemma exec_from_SomeD:
  "exec_from m b a = Some (st, en) \<Longrightarrow>
   \<exists>p0 a0 es. a = p0 @ a0 \<and> st = (rev p0 @ b, a0) \<and> m st = en # es \<and>
     (\<forall>p1 p2. p0 = p1 @ p2 \<and> p2 \<noteq> [] \<longrightarrow> m (rev p1 @ b, p2 @ a0) = [])"
proof (induction a arbitrary: b)
  case Nil
  then obtain es where "m (b, []) = en # es" "st = (b, [])" by (auto split: list.splits)
  then have "[] = [] @ [] \<and> st = (rev [] @ b, []) \<and> m st = en # es \<and>
     (\<forall>p1 p2. [] = p1 @ p2 \<and> p2 \<noteq> [] \<longrightarrow> m (rev p1 @ b, p2 @ []) = [])" by simp
  then show ?case by (intro exI [of _ "[]"] exI [of _ es])
next
  case (Cons c a)
  show ?case
  proof (cases "m (b, c # a)")
    case (Cons r rs)
    with Cons.prems have "st = (b, c # a)" "en = r" by simp_all
    with Cons have "c # a = [] @ c # a \<and> st = (rev [] @ b, c # a) \<and> m st = en # rs \<and>
      (\<forall>p1 p2. [] = p1 @ p2 \<and> p2 \<noteq> [] \<longrightarrow> m (rev p1 @ b, p2 @ c # a) = [])" by simp
    then show ?thesis by (intro exI [of _ "[]"] exI [of _ "c # a"] exI [of _ rs])
  next
    case Nil
    with Cons.prems have "exec_from m (c # b) a = Some (st, en)" by simp
    from Cons.IH [OF this] obtain p0 a0 es where
      h: "a = p0 @ a0" "st = (rev p0 @ c # b, a0)" "m st = en # es"
         "\<forall>p1 p2. p0 = p1 @ p2 \<and> p2 \<noteq> [] \<longrightarrow> m (rev p1 @ c # b, p2 @ a0) = []"
      by blast
    have "\<forall>p1 p2. c # p0 = p1 @ p2 \<and> p2 \<noteq> [] \<longrightarrow> m (rev p1 @ b, p2 @ a0) = []"
    proof (intro allI impI)
      fix p1 p2 assume e: "c # p0 = p1 @ p2 \<and> p2 \<noteq> []"
      show "m (rev p1 @ b, p2 @ a0) = []"
      proof (cases p1)
        case Nil
        with e have "p2 = c # p0" by simp
        with Nil h(1) \<open>m (b, c # a) = []\<close> show ?thesis by simp
      next
        case (Cons x p1')
        with e have "x = c" "p0 = p1' @ p2" by simp_all
        with e h(4) have "m (rev p1' @ c # b, p2 @ a0) = []" by blast
        with Cons \<open>x = c\<close> show ?thesis by simp
      qed
    qed
    with h have "c # a = (c # p0) @ a0 \<and> st = (rev (c # p0) @ b, a0) \<and> m st = en # es \<and>
      (\<forall>p1 p2. c # p0 = p1 @ p2 \<and> p2 \<noteq> [] \<longrightarrow> m (rev p1 @ b, p2 @ a0) = [])" by simp
    then show ?thesis by (intro exI [of _ "c # p0"] exI [of _ a0] exI [of _ es])
  qed
qed


lemma iso_shape_last: "iso_shape tok \<Longrightarrow> tok \<noteq> [] \<and> isWordChar (last tok)"
  by (auto simp: iso_shape_def isDigit_word)







lemma parse_0230: "parseISODate tz ''2025-02-30'' = Some 1740873600000"
  unfolding parseISODate_def MakeDay_def days_from_civil_def Let_def
  by (simp add: digit_val_def msPerDay_def)









lemmas iso_eval_rules = match_all_def match_all_from.simps isoDatePattern_unfold seq_cls_Cons
  seq_cls_Nil seq_wordb chr_def wordb_def isWordHd_def isDigit_def isWordChar_def inRange_def
  matched_def


lemma chr_i_unfold: "seq (chr_i x) m (b, c # a) = (if toLowerCase_char c = toLowerCase_char x then m (c # b, a) else [])"
  "seq (chr_i x) m (b, []) = []"
  by (simp_all add: chr_i_def seq_cls_Cons seq_cls_Nil)





lemma seq_opt: "seq (opt m) k st = seq m k st @ k st"
  by (simp add: seq_def opt_def)



text \<open>
  Where the local offset changes within the week, \<open>weekEnd\<close> is not \<open>weekStart\<close> + 6 times 24
  hours. In the zone of London the clocks go back at 2025-10-26T01:00Z. For the
  \<open>weekStart\<close> 2025-10-25T23:00Z, local midnight, \<open>weekEnd\<close> is the local midnight
  2025-11-01T00:00Z, 6 times 24 hours and one hour later, and the token 2025-11-01 is
  accepted. A token such as 2025-02-30 is read as a date, March 2.
\<close>

lemma ex_1101_matches:
  "match_all isoDatePattern (combinedText ex_1101) = [''2025-11-01'']"
  by (simp add: ex_1101_def combinedText_def iso_eval_rules)

lemma ex_1101_no_url: "\<not> contains_url (combinedText ex_1101)"
  unfolding test_urlPattern [symmetric]
  by (simp add: ex_1101_def combinedText_def test_def urlPattern_def seqs_Cons seqs_Nil lit_i_def
      seq_assoc seq_eps chr_i_unfold toLowerCase_char_def inRange_def char_of_eq_iff)

lemma parse_1101: "parseISODate tz ''2025-11-01'' = Some 1761955200000"
  unfolding parseISODate_def MakeDay_def days_from_civil_def Let_def
  by (simp add: digit_val_def msPerDay_def)

lemma validateV2_offset_change:
  "addDays ex_london 1761433200000 6 = 1761955200000"
  "1761433200000 + 6 * msPerDay = (1761951600000 :: int)"
  "validateV2_WindowAndLinks ex_london ex_1101 1761433200000 = Inr ()"
  "validateV2_WindowAndLinks ex_utc ex_1101 1761433200000 = Inl (WindowError_Date ''2025-11-01'')"
proof -
  show a: "addDays ex_london 1761433200000 6 = 1761955200000"
    by (simp add: addDays_eq UTC_def LocalTime_def ex_london_def msPerDay_def)
  show "1761433200000 + 6 * msPerDay = (1761951600000 :: int)" by (simp add: msPerDay_def)
  show "validateV2_WindowAndLinks ex_london ex_1101 1761433200000 = Inr ()"
    using ex_1101_no_url
    by (simp add: validateV2_WindowAndLinks_def test_urlPattern ex_1101_matches parse_1101 a)
  have "addDays ex_utc 1761433200000 6 = 1761951600000"
    by (simp add: addDays_eq UTC_def LocalTime_def ex_utc_def msPerDay_def)
  then show "validateV2_WindowAndLinks ex_utc ex_1101 1761433200000 = Inl (WindowError_Date ''2025-11-01'')"
    using ex_1101_no_url
    by (simp add: validateV2_WindowAndLinks_def test_urlPattern ex_1101_matches parse_1101)
qed

section \<open>The bound on nested calls is never reached\<close>

lemma skip_ws_length: "length (skip_ws s) \<le> length s"
  by (simp add: skip_ws_def length_dropWhile_le)

lemma parse_string_length: "parse_string out s = Some (str, r) \<Longrightarrow> length r < length s"
proof (induction out s rule: parse_string.induct)
  case (1 out)
  then show ?case by simp
next
  case (2 out c)
  then show ?case by (simp split: if_splits)
next
  case (3 out c e r0)
  show ?case
  proof (cases "c = CHR 0x22")
    case True
    with 3(4) show ?thesis by simp
  next
    case q: False
    show ?thesis
    proof (cases "c = CHR 0x5C")
      case False
      with q 3(4) have p: "parse_string (out @ [of_char c]) (e # r0) = Some (str, r)"
        and "\<not> (of_char c :: nat) < 32"
        by (simp_all split: if_splits)
      from 3(3) [OF q False this(2) p] show ?thesis by simp
    next
      case b: True
      show ?thesis
      proof (cases "e = CHR ''u''")
        case True
        with q b 3(4) obtain h1 h2 h3 h4 r' u where r0: "r0 = h1 # h2 # h3 # h4 # r'"
          and h: "hex4 h1 h2 h3 h4 = Some u" and p: "parse_string (out @ [u]) r' = Some (str, r)"
          by (auto split: list.splits option.splits)
        from 3(1) [OF q b True r0 refl refl refl h p] r0 show ?thesis by simp
      next
        case False
        with q b 3(4) obtain u where h: "escape_char e = Some u"
          and p: "parse_string (out @ [u]) r0 = Some (str, r)"
          by (auto split: option.splits)
        from 3(2) [OF q b False h p] show ?thesis by simp
      qed
    qed
  qed
qed

lemma parse_exp_length: "parse_exp v s = Some (v', r) \<Longrightarrow> length r \<le> length s"
proof -
  have d: "length (dropWhile isDigit t) \<le> Suc (Suc (length t))" for t :: string
    using length_dropWhile_le [of isDigit t] by simp
  show "parse_exp v s = Some (v', r) \<Longrightarrow> ?thesis"
    by (auto simp: parse_exp_def Let_def d split: list.splits if_splits)
qed

lemma parse_frac_length: "parse_frac n s = Some (v, r) \<Longrightarrow> length r \<le> length s"
proof (cases s)
  case Nil
  assume "parse_frac n s = Some (v, r)"
  with Nil show ?thesis by (simp add: parse_frac_def)
next
  case (Cons p t)
  assume a: "parse_frac n s = Some (v, r)"
  show ?thesis
  proof (cases "p = CHR ''.''")
    case True
    with a Cons obtain v0 where "parse_exp v0 (dropWhile isDigit t) = Some (v, r)"
      by (auto simp: parse_frac_def Let_def split: if_splits)
    from parse_exp_length [OF this] length_dropWhile_le [of isDigit t] Cons show ?thesis by simp
  next
    case False
    with a Cons have "parse_exp (of_int n) s = Some (v, r)" by (simp add: parse_frac_def)
    from parse_exp_length [OF this] show ?thesis .
  qed
qed

lemma parse_number_length: "parse_number s = Some (v, r) \<Longrightarrow> length r < length s"
proof -
  assume a: "parse_number s = Some (v, r)"
  define sg where "sg = (case s of [] \<Rightarrow> [] | x # _ \<Rightarrow> if x = CHR ''-'' then [x] else [])"
  define s' where "s' = drop (length sg) s"
  from a obtain d t where s': "s' = d # t"
    unfolding parse_number_def sg_def [symmetric] Let_def s'_def [symmetric]
    by (cases s') auto
  have ls: "length s' \<le> length s" unfolding s'_def by simp
  show ?thesis
  proof (cases "d = CHR ''0''")
    case True
    with a s' obtain v0 where "parse_frac 0 t = Some (v0, r)"
      unfolding parse_number_def sg_def [symmetric] Let_def s'_def [symmetric] by auto
    from parse_frac_length [OF this] s' ls show ?thesis by simp
  next
    case False
    with a s' have dg: "isDigit d"
      and "\<exists>v0. parse_frac (digits_val 0 (takeWhile isDigit s')) (dropWhile isDigit s') = Some (v0, r)"
      unfolding parse_number_def sg_def [symmetric] Let_def s'_def [symmetric]
      by (auto split: if_splits)
    then obtain v0 where
      "parse_frac (digits_val 0 (takeWhile isDigit s')) (dropWhile isDigit s') = Some (v0, r)"
      by blast
    from parse_frac_length [OF this] have "length r \<le> length (dropWhile isDigit s')" .
    moreover have "length (dropWhile isDigit s') \<le> length t"
      using s' dg length_dropWhile_le [of isDigit t] by simp
    ultimately show ?thesis using s' ls by simp
  qed
qed

lemma parse_value_other:
  assumes "skip_ws s = c # t" "c \<noteq> CHR ''{''" "c \<noteq> CHR ''[''"
  shows "parse_value (Suc k) s = parse_value (Suc n) s"
  using assms by simp

lemma parse_value_other_length:
  assumes "skip_ws s = c # t" "c \<noteq> CHR ''{''" "c \<noteq> CHR ''[''"
      and "parse_value (Suc n) s = Some (v, r)"
  shows "length r < length (c # t)"
proof (cases "c = CHR 0x22")
  case True
  with assms obtain str where "parse_string [] t = Some (str, r)" by auto
  from parse_string_length [OF this] show ?thesis by simp
next
  case q: False
  show ?thesis
  proof (cases "c = CHR ''-'' \<or> isDigit c")
    case True
    with q assms obtain v0 where "parse_number (c # t) = Some (v0, r)" by auto
    from parse_number_length [OF this] show ?thesis .
  next
    case False
    with q assms have "r = drop 4 (c # t) \<or> r = drop 5 (c # t)"
      by (auto split: if_splits)
    then show ?thesis by auto
  qed
qed

lemma parse_value_brace:
  assumes "skip_ws s = CHR ''{'' # t"
  shows "parse_value (Suc n) s =
     (if take 1 (skip_ws t) = ''}'' then Some (JObject [], drop 1 (skip_ws t))
      else map_option (\<lambda>(kvs, r'). (JObject kvs, r')) (parse_members n [] t))"
  using assms by simp

lemma parse_value_bracket:
  assumes "skip_ws s = CHR ''['' # t"
  shows "parse_value (Suc n) s =
     (if take 1 (skip_ws t) = '']'' then Some (JArray [], drop 1 (skip_ws t))
      else map_option (\<lambda>(vs, r'). (JArray vs, r')) (parse_elements n [] t))"
  using assms by simp

lemma drop1_skip_ws_length: "take 1 (skip_ws t) = [x] \<Longrightarrow> length (drop 1 (skip_ws t)) < length t"
  using skip_ws_length [of t] by (cases "skip_ws t") auto

lemma fuel_value_step:
  assumes m: "fuel_ok_members n" and e: "fuel_ok_elements n"
  shows "fuel_ok_value (Suc n)"
  unfolding fuel_ok_value_def
proof (intro allI impI)
  fix s v r assume a: "parse_value (Suc n) s = Some (v, r)"
  then obtain c t where w: "skip_ws s = c # t" by (cases "skip_ws s") auto
  note [simp del] = parse_value.simps parse_members.simps parse_elements.simps
  have ls: "length (c # t) \<le> length s" using skip_ws_length [of s] w by simp
  show "length r < length s \<and> (\<forall>k. length s - length r \<le> k \<longrightarrow> parse_value k s = Some (v, r))"
  proof (cases "c = CHR ''{''")
    case True
    note b = parse_value_brace [OF w [unfolded True]]
    show ?thesis
    proof (cases "take 1 (skip_ws t) = ''}''")
      case True
      with a b have v: "v = JObject []" "r = drop 1 (skip_ws t)" by simp_all
      from drop1_skip_ws_length [OF True] v ls have l: "length r < length s" by simp
      have "parse_value k s = Some (v, r)" if "length s - length r \<le> k" for k
      proof -
        from that l obtain k' where "k = Suc k'" by (cases k) auto
        with b [of k'] True v show ?thesis by simp
      qed
      with l show ?thesis by blast
    next
      case False
      with a b [of n] obtain kvs where p: "parse_members n [] t = Some (kvs, r)" and v: "v = JObject kvs"
        by auto
      from m p have l: "length r < length t"
        and f: "\<And>k. length t - length r \<le> k \<Longrightarrow> parse_members k [] t = Some (kvs, r)"
        unfolding fuel_ok_members_def by blast+
      have "parse_value k s = Some (v, r)" if "length s - length r \<le> k" for k
      proof -
        from that l ls obtain k' where k: "k = Suc k'" "length t - length r \<le> k'"
          by (cases k) auto
        with b [of k'] False f [OF k(2)] v show ?thesis by simp
      qed
      with l ls show ?thesis by auto
    qed
  next
    case nb: False
    show ?thesis
    proof (cases "c = CHR ''[''")
      case True
      note b = parse_value_bracket [OF w [unfolded True]]
      show ?thesis
      proof (cases "take 1 (skip_ws t) = '']''")
        case True
        with a b have v: "v = JArray []" "r = drop 1 (skip_ws t)" by simp_all
        from drop1_skip_ws_length [OF True] v ls have l: "length r < length s" by simp
        have "parse_value k s = Some (v, r)" if "length s - length r \<le> k" for k
        proof -
          from that l obtain k' where "k = Suc k'" by (cases k) auto
          with b [of k'] True v show ?thesis by simp
        qed
        with l show ?thesis by blast
      next
        case False
        with a b [of n] obtain vs where p: "parse_elements n [] t = Some (vs, r)" and v: "v = JArray vs"
          by auto
        from e p have l: "length r < length t"
          and f: "\<And>k. length t - length r \<le> k \<Longrightarrow> parse_elements k [] t = Some (vs, r)"
          unfolding fuel_ok_elements_def by blast+
        have "parse_value k s = Some (v, r)" if "length s - length r \<le> k" for k
        proof -
          from that l ls obtain k' where k: "k = Suc k'" "length t - length r \<le> k'"
            by (cases k) auto
          with b [of k'] False f [OF k(2)] v show ?thesis by simp
        qed
        with l ls show ?thesis by auto
      qed
    next
      case False
      from parse_value_other_length [OF w nb False a] ls have l: "length r < length s" by simp
      have "parse_value k s = Some (v, r)" if "length s - length r \<le> k" for k
      proof -
        from that l obtain k' where "k = Suc k'" by (cases k) auto
        with parse_value_other [OF w nb False, of k' n] a show ?thesis by simp
      qed
      with l show ?thesis by blast
    qed
  qed
qed

lemma parse_members_unfold:
  assumes "skip_ws s = CHR 0x22 # t" "parse_string [] t = Some (key, r1)" "take 1 (skip_ws r1) = '':''"
  shows "parse_members (Suc n) out s =
     (case parse_value n (drop 1 (skip_ws r1)) of
        None \<Rightarrow> None
      | Some (v, r2) \<Rightarrow>
          if take 1 (skip_ws r2) = '','' then parse_members n (out @ [(key, v)]) (drop 1 (skip_ws r2))
          else if take 1 (skip_ws r2) = ''}'' then Some (out @ [(key, v)], drop 1 (skip_ws r2))
          else None)"
  using assms by simp

lemma parse_members_prefix:
  assumes "parse_members (Suc n) out s = Some (kvs, r)"
  obtains t key r1 where "skip_ws s = CHR 0x22 # t" "parse_string [] t = Some (key, r1)"
    "take 1 (skip_ws r1) = '':''"
  using assms by (auto split: list.splits if_splits option.splits)

lemma fuel_members_step:
  assumes v: "fuel_ok_value n" and m: "fuel_ok_members n"
  shows "fuel_ok_members (Suc n)"
  unfolding fuel_ok_members_def
proof (intro allI impI)
  fix out s kvs r assume a: "parse_members (Suc n) out s = Some (kvs, r)"
  from parse_members_prefix [OF a] obtain t key r1 where
    w: "skip_ws s = CHR 0x22 # t" and k: "parse_string [] t = Some (key, r1)"
    and c: "take 1 (skip_ws r1) = '':''"
    by blast
  note [simp del] = parse_value.simps parse_members.simps parse_elements.simps
  note u = parse_members_unfold [OF w k c]
  define s1 where "s1 = drop 1 (skip_ws r1)"
  have l1: "Suc (Suc (length s1)) < length s"
    using skip_ws_length [of s] w parse_string_length [OF k] drop1_skip_ws_length [OF c]
    unfolding s1_def by simp
  from a obtain val r2 where pv: "parse_value n s1 = Some (val, r2)"
    unfolding u s1_def [symmetric] by (cases "parse_value n s1") auto
  from v pv have l2: "length r2 < length s1"
    and fv: "\<And>k. length s1 - length r2 \<le> k \<Longrightarrow> parse_value k s1 = Some (val, r2)"
    unfolding fuel_ok_value_def by blast+
  show "length r < length s \<and> (\<forall>k. length s - length r \<le> k \<longrightarrow> parse_members k out s = Some (kvs, r))"
  proof (cases "take 1 (skip_ws r2) = '',''")
    case True
    define s2 where "s2 = drop 1 (skip_ws r2)"
    have l3: "length s2 < length r2" unfolding s2_def by (rule drop1_skip_ws_length [OF True])
    from a pv True have pm: "parse_members n (out @ [(key, val)]) s2 = Some (kvs, r)"
      unfolding u s1_def [symmetric] s2_def by simp
    from m pm have l4: "length r < length s2"
      and fm: "\<And>k. length s2 - length r \<le> k \<Longrightarrow> parse_members k (out @ [(key, val)]) s2 = Some (kvs, r)"
      unfolding fuel_ok_members_def by blast+
    have "parse_members k' out s = Some (kvs, r)" if "length s - length r \<le> k'" for k'
    proof -
      from that l1 l2 l3 l4 obtain j where j: "k' = Suc j" "length s1 - length r2 \<le> j"
        "length s2 - length r \<le> j"
        by (cases k') auto
      from fv [OF j(2)] fm [OF j(3)] True show ?thesis
        unfolding j(1) parse_members_unfold [OF w k c] by (simp add: s1_def s2_def)
    qed
    with l1 l2 l3 l4 show ?thesis by auto
  next
    case False
    with a pv have e: "take 1 (skip_ws r2) = ''}''" and kr: "kvs = out @ [(key, val)]" "r = drop 1 (skip_ws r2)"
      unfolding u s1_def [symmetric] by (auto split: if_splits)
    have l3: "length r < length r2" unfolding kr by (rule drop1_skip_ws_length [OF e])
    have "parse_members k' out s = Some (kvs, r)" if "length s - length r \<le> k'" for k'
    proof -
      from that l1 l2 l3 obtain j where j: "k' = Suc j" "length s1 - length r2 \<le> j"
        by (cases k') auto
      from fv [OF j(2)] False e kr show ?thesis
        unfolding j(1) parse_members_unfold [OF w k c] by (simp add: s1_def)
    qed
    with l1 l2 l3 show ?thesis by auto
  qed
qed

lemma fuel_elements_step:
  assumes v: "fuel_ok_value n" and e: "fuel_ok_elements n"
  shows "fuel_ok_elements (Suc n)"
  unfolding fuel_ok_elements_def
proof (intro allI impI)
  fix out s vs r assume a: "parse_elements (Suc n) out s = Some (vs, r)"
  have u: "parse_elements (Suc j) out s =
     (case parse_value j s of
        None \<Rightarrow> None
      | Some (v, r) \<Rightarrow>
          if take 1 (skip_ws r) = '','' then parse_elements j (out @ [v]) (drop 1 (skip_ws r))
          else if take 1 (skip_ws r) = '']'' then Some (out @ [v], drop 1 (skip_ws r))
          else None)" for j
    by simp
  note [simp del] = parse_value.simps parse_members.simps parse_elements.simps
  from a obtain val r2 where pv: "parse_value n s = Some (val, r2)"
    unfolding u by (cases "parse_value n s") auto
  from v pv have l2: "length r2 < length s"
    and fv: "\<And>k. length s - length r2 \<le> k \<Longrightarrow> parse_value k s = Some (val, r2)"
    unfolding fuel_ok_value_def by blast+
  show "length r < length s \<and> (\<forall>k. length s - length r \<le> k \<longrightarrow> parse_elements k out s = Some (vs, r))"
  proof (cases "take 1 (skip_ws r2) = '',''")
    case True
    define s2 where "s2 = drop 1 (skip_ws r2)"
    have l3: "length s2 < length r2" unfolding s2_def by (rule drop1_skip_ws_length [OF True])
    from a pv True have pm: "parse_elements n (out @ [val]) s2 = Some (vs, r)"
      unfolding u s2_def by simp
    from e pm have l4: "length r < length s2"
      and fm: "\<And>k. length s2 - length r \<le> k \<Longrightarrow> parse_elements k (out @ [val]) s2 = Some (vs, r)"
      unfolding fuel_ok_elements_def by blast+
    have "parse_elements k' out s = Some (vs, r)" if "length s - length r \<le> k'" for k'
    proof -
      from that l2 l3 l4 obtain j where j: "k' = Suc j" "length s - length r2 \<le> j"
        "length s2 - length r \<le> j"
        by (cases k') auto
      from fv [OF j(2)] fm [OF j(3)] True show ?thesis
        unfolding j(1) u by (simp add: s2_def)
    qed
    with l2 l3 l4 show ?thesis by auto
  next
    case False
    with a pv have b: "take 1 (skip_ws r2) = '']''" and kr: "vs = out @ [val]" "r = drop 1 (skip_ws r2)"
      unfolding u by (auto split: if_splits)
    have l3: "length r < length r2" unfolding kr by (rule drop1_skip_ws_length [OF b])
    have "parse_elements k' out s = Some (vs, r)" if "length s - length r \<le> k'" for k'
    proof -
      from that l2 l3 obtain j where j: "k' = Suc j" "length s - length r2 \<le> j"
        by (cases k') auto
      from fv [OF j(2)] False b kr show ?thesis unfolding j(1) u by simp
    qed
    with l2 l3 show ?thesis by auto
  qed
qed

lemma fuel_ok: "fuel_ok_value n \<and> fuel_ok_members n \<and> fuel_ok_elements n"
proof (induction n)
  case 0
  show ?case by (simp add: fuel_ok_value_def fuel_ok_members_def fuel_ok_elements_def)
next
  case (Suc n)
  then show ?case by (simp add: fuel_value_step fuel_members_step fuel_elements_step)
qed

text \<open>
  Whatever bound at least one more than the length of the text is taken, the outcome of
  \<open>parse_value\<close> is the same: a failure of \<open>JSON_parse\<close> is a text that is no JSON, never a
  bound that was reached.
\<close>

lemma parse_value_fuel:
  assumes "Suc (length s) \<le> n"
  shows "parse_value n s = parse_value (Suc (length s)) s"
proof (cases "parse_value n s")
  case (Some x)
  obtain v r where x: "x = (v, r)" by (cases x)
  from fuel_ok [of n] Some x have "length r < length s"
    and "\<And>k. length s - length r \<le> k \<Longrightarrow> parse_value k s = Some (v, r)"
    unfolding fuel_ok_value_def by blast+
  from this(2) [of "Suc (length s)"] have "parse_value (Suc (length s)) s = Some (v, r)"
    by (simp del: parse_value.simps)
  with Some x show ?thesis by (simp only:)
next
  case None
  show ?thesis
  proof (cases "parse_value (Suc (length s)) s")
    case (Some x)
    obtain v r where x: "x = (v, r)" by (cases x)
    from fuel_ok [of "Suc (length s)"] Some x
    have "\<And>k. length s - length r \<le> k \<Longrightarrow> parse_value k s = Some (v, r)"
      unfolding fuel_ok_value_def by blast
    from assms have "length s - length r \<le> n" by simp
    from \<open>\<And>k. length s - length r \<le> k \<Longrightarrow> parse_value k s = Some (v, r)\<close> [OF this] None
    show ?thesis by (simp only: option.distinct)
  next
    case None': None
    with None show ?thesis by (simp only:)
  qed
qed

lemma JSON_parse_fuel:
  "JSON_parse s = Some v \<longleftrightarrow> (\<exists>n r. parse_value n s = Some (v, r) \<and> skip_ws r = [])"
proof
  assume "JSON_parse s = Some v"
  then show "\<exists>n r. parse_value n s = Some (v, r) \<and> skip_ws r = []"
    by (auto simp: JSON_parse_def simp del: parse_value.simps split: option.splits if_splits
        intro: exI [of _ "Suc (length s)"])
next
  assume "\<exists>n r. parse_value n s = Some (v, r) \<and> skip_ws r = []"
  then obtain n r where p: "parse_value n s = Some (v, r)" and w: "skip_ws r = []" by blast
  from fuel_ok [of n] p have "\<And>k. length s - length r \<le> k \<Longrightarrow> parse_value k s = Some (v, r)"
    unfolding fuel_ok_value_def by blast
  from this [of "Suc (length s)"] have "parse_value (Suc (length s)) s = Some (v, r)"
    by (simp del: parse_value.simps)
  with w show "JSON_parse s = Some v" by (simp add: JSON_parse_def del: parse_value.simps)
qed

section \<open>parseLLMResponse: the text between the braces\<close>

lemma jsonPattern_unfold:
  "jsonPattern = seq (chr CHR ''{'') (seq (star (cls anyChar)) (chr CHR ''}''))"
proof -
  have "(\<lambda>c. isSpace c \<or> \<not> isSpace c) = anyChar" by (rule ext) (simp add: anyChar_def)
  then show ?thesis by (simp add: jsonPattern_def seqs_Cons seqs_Nil seq_eps)
qed

lemma tail_Nil: "seq (star (cls anyChar)) (chr CHR ''}'') (b, []) = []"
  by (simp add: seq_def star_cls_Nil chr_def cls_def)

lemma tail_Cons:
  "seq (star (cls anyChar)) (chr CHR ''}'') (b, c # a) =
     seq (star (cls anyChar)) (chr CHR ''}'') (c # b, a) @ (if c = CHR ''}'' then [(c # b, a)] else [])"
  by (simp add: seq_def star_cls_Cons anyChar_def chr_def cls_def)

lemma tail_none: "CHR ''}'' \<notin> set a \<Longrightarrow> seq (star (cls anyChar)) (chr CHR ''}'') (b, a) = []"
  by (induction a arbitrary: b) (auto simp: tail_Nil tail_Cons)

lemma tail_last:
  "CHR ''}'' \<notin> set post \<Longrightarrow>
   \<exists>rest. seq (star (cls anyChar)) (chr CHR ''}'') (b, u @ CHR ''}'' # post) =
            (CHR ''}'' # rev u @ b, post) # rest"
proof (induction u arbitrary: b)
  case Nil
  then show ?case by (simp add: tail_Cons tail_none)
next
  case (Cons c u)
  from Cons.IH [OF Cons.prems, of "c # b"] show ?case by (auto simp: tail_Cons)
qed

lemma jsonPattern_other: "c \<noteq> CHR ''{'' \<Longrightarrow> jsonPattern (b, c # a) = []"
  by (simp add: jsonPattern_unfold seq_def chr_def cls_def)

lemma jsonPattern_Nil: "jsonPattern (b, []) = []"
  by (simp add: jsonPattern_unfold seq_def chr_def cls_def)

lemma jsonPattern_brace:
  "jsonPattern (b, CHR ''{'' # a) = seq (star (cls anyChar)) (chr CHR ''}'') (CHR ''{'' # b, a)"
  by (simp add: jsonPattern_unfold chr_def seq_cls_Cons)

lemma exec_from_skip:
  "(\<And>c b r. c \<in> set pre \<Longrightarrow> m (b, c # r) = []) \<Longrightarrow>
   exec_from m b (pre @ a) = exec_from m (rev pre @ b) a"
proof (induction pre arbitrary: b)
  case Nil
  show ?case by simp
next
  case (Cons c pre)
  have "m (b, c # pre @ a) = []" using Cons.prems by simp
  moreover have "exec_from m (c # b) (pre @ a) = exec_from m (rev pre @ c # b) a"
    using Cons.prems by (intro Cons.IH) simp
  ultimately show ?case by simp
qed

lemma exec_json_found:
  assumes "CHR ''{'' \<notin> set pre" "CHR ''}'' \<notin> set post"
  shows "exec_from jsonPattern [] (pre @ CHR ''{'' # mid @ CHR ''}'' # post) =
         Some ((rev pre, CHR ''{'' # mid @ CHR ''}'' # post),
               (CHR ''}'' # rev mid @ CHR ''{'' # rev pre, post))"
proof -
  have skip: "exec_from jsonPattern [] (pre @ CHR ''{'' # mid @ CHR ''}'' # post) =
      exec_from jsonPattern (rev pre @ []) (CHR ''{'' # mid @ CHR ''}'' # post)"
    using assms(1) by (intro exec_from_skip jsonPattern_other) auto
  from tail_last [OF assms(2), of "CHR ''{'' # rev pre" mid] obtain rest where
    "jsonPattern (rev pre, CHR ''{'' # mid @ CHR ''}'' # post) =
       (CHR ''}'' # rev mid @ CHR ''{'' # rev pre, post) # rest"
    by (auto simp: jsonPattern_brace)
  with skip show ?thesis by simp
qed

lemma match_first_json_iff:
  "match_first jsonPattern s = Some sub \<longleftrightarrow> is_brace_substring s sub"
proof
  assume "is_brace_substring s sub"
  then obtain pre mid post where h: "s = pre @ CHR ''{'' # mid @ CHR ''}'' # post"
      "CHR ''{'' \<notin> set pre" "CHR ''}'' \<notin> set post" "sub = CHR ''{'' # mid @ [CHR ''}'']"
    unfolding is_brace_substring_def by blast
  from exec_json_found [OF h(2,3), of mid] h(1,4)
  show "match_first jsonPattern s = Some sub"
    by (simp add: match_first_def matched_def)
next
  assume "match_first jsonPattern s = Some sub"
  then obtain st en where ex: "exec_from jsonPattern [] s = Some (st, en)"
      and sub: "sub = matched (st, en)"
    by (auto simp: match_first_def)
  from exec_from_SomeD [OF ex] obtain p0 a0 es where
    h: "s = p0 @ a0" "st = (rev p0 @ [], a0)" "jsonPattern st = en # es"
       "\<forall>p1 p2. p0 = p1 @ p2 \<and> p2 \<noteq> [] \<longrightarrow> jsonPattern (rev p1 @ [], p2 @ a0) = []"
    by blast
  have "\<exists>a'. a0 = CHR ''{'' # a'"
  proof (cases a0)
    case Nil
    with h(2,3) show ?thesis by (simp add: jsonPattern_Nil)
  next
    case (Cons c a')
    show ?thesis
    proof (cases "c = CHR ''{''")
      case True
      with Cons show ?thesis by simp
    next
      case False
      with Cons h(2,3) show ?thesis by (simp add: jsonPattern_other)
    qed
  qed
  then obtain a' where a0: "a0 = CHR ''{'' # a'" by blast
  with h have t: "seq (star (cls anyChar)) (chr CHR ''}'') (CHR ''{'' # rev p0, a') = en # es"
    by (simp add: jsonPattern_brace)
  then have "CHR ''}'' \<in> set a'" using tail_none by fastforce
  from split_list_last [OF this] obtain mid post where a': "a' = mid @ CHR ''}'' # post"
      "CHR ''}'' \<notin> set post"
    by blast
  from tail_last [OF a'(2), of "CHR ''{'' # rev p0" mid] t a'
  have en: "en = (CHR ''}'' # rev mid @ CHR ''{'' # rev p0, post)" by auto
  have nopre: "CHR ''{'' \<notin> set p0"
  proof
    assume "CHR ''{'' \<in> set p0"
    from split_list [OF this] obtain p1 p2 where p: "p0 = p1 @ CHR ''{'' # p2" by blast
    with h(4) have "jsonPattern (rev p1 @ [], (CHR ''{'' # p2) @ a0) = []" by blast
    then have e: "seq (star (cls anyChar)) (chr CHR ''}'') (CHR ''{'' # rev p1, p2 @ a0) = []"
      by (simp add: jsonPattern_brace)
    from tail_last [OF a'(2), of "CHR ''{'' # rev p1" "p2 @ CHR ''{'' # mid"] a0 a' e
    show False by simp
  qed
  from sub h(2) en a0 a' have "sub = CHR ''{'' # mid @ [CHR ''}'']"
    by (simp add: matched_def)
  with h(1) a0 a' nopre show "is_brace_substring s sub"
    unfolding is_brace_substring_def by blast
qed

lemma is_brace_substring_unique:
  "is_brace_substring s sub \<Longrightarrow> is_brace_substring s sub' \<Longrightarrow> sub = sub'"
  using match_first_json_iff [of s] by (metis option.inject)

lemma match_first_json_None:
  "match_first jsonPattern s = None \<longleftrightarrow> (\<forall>sub. \<not> is_brace_substring s sub)"
  using match_first_json_iff [of s] by (cases "match_first jsonPattern s") auto

lemma parse_dichotomy:
  "(\<exists>e. parseLLMResponse s = Inl e) \<or> (\<exists>r. parseLLMResponse s = Inr r)"
  by (cases "parseLLMResponse s") auto

lemma both_strings_iff:
  "(truthy (getProp obj ''summary'') \<and> truthy (getProp obj ''focus'') \<and>
    (\<exists>a b. getProp obj ''summary'' = Some (JString a) \<and> getProp obj ''focus'' = Some (JString b)))
   \<longleftrightarrow>
   (\<exists>a b. getProp obj ''summary'' = Some (JString a) \<and> getProp obj ''focus'' = Some (JString b) \<and>
      a \<noteq> [] \<and> b \<noteq> [])"
  by (auto simp: truthy_def)

lemma parseLLMResponse_Inr_iff:
  "parseLLMResponse s = Inr r \<longleftrightarrow>
     (\<exists>sub obj. is_brace_substring s sub \<and> JSON_parse sub = Some obj \<and>
        getProp obj ''summary'' = Some (JString (summary r)) \<and>
        getProp obj ''focus'' = Some (JString (focus r)) \<and>
        summary r \<noteq> [] \<and> focus r \<noteq> [] \<and> otherKeys r = [])"
proof
  assume a: "parseLLMResponse s = Inr r"
  then obtain sub where sub: "match_first jsonPattern s = Some sub"
    by (auto simp: parseLLMResponse_def split: option.splits)
  with a obtain obj where obj: "JSON_parse sub = Some obj"
    by (auto simp: parseLLMResponse_def split: option.splits)
  with a sub have t: "truthy (getProp obj ''summary'')" "truthy (getProp obj ''focus'')"
    by (auto simp: parseLLMResponse_def split: if_splits)
  with a sub obj have "getProp obj ''summary'' = Some (JString (summary r)) \<and>
      getProp obj ''focus'' = Some (JString (focus r)) \<and> otherKeys r = []"
    by (auto simp: parseLLMResponse_def split: option.splits json.splits)
  moreover from this t have "summary r \<noteq> []" "focus r \<noteq> []" by (auto simp: truthy_def)
  ultimately show "\<exists>sub obj. is_brace_substring s sub \<and> JSON_parse sub = Some obj \<and>
        getProp obj ''summary'' = Some (JString (summary r)) \<and>
        getProp obj ''focus'' = Some (JString (focus r)) \<and>
        summary r \<noteq> [] \<and> focus r \<noteq> [] \<and> otherKeys r = []"
    using sub obj match_first_json_iff by blast
next
  assume "\<exists>sub obj. is_brace_substring s sub \<and> JSON_parse sub = Some obj \<and>
        getProp obj ''summary'' = Some (JString (summary r)) \<and>
        getProp obj ''focus'' = Some (JString (focus r)) \<and>
        summary r \<noteq> [] \<and> focus r \<noteq> [] \<and> otherKeys r = []"
  then obtain sub obj where h: "is_brace_substring s sub" "JSON_parse sub = Some obj"
      "getProp obj ''summary'' = Some (JString (summary r))"
      "getProp obj ''focus'' = Some (JString (focus r))"
      "summary r \<noteq> []" "focus r \<noteq> []" "otherKeys r = []"
    by blast
  from h(1) have "match_first jsonPattern s = Some sub" by (simp add: match_first_json_iff)
  with h show "parseLLMResponse s = Inr r"
    by (simp add: parseLLMResponse_def truthy_def)
qed

lemma no_brace_substring: "CHR ''{'' \<notin> set s \<Longrightarrow> \<not> is_brace_substring s sub"
  by (auto simp: is_brace_substring_def)

lemma truthy_iff: "truthy v \<longleftrightarrow> \<not> falsy v"
proof -
  have "number_nonzero x \<longleftrightarrow> \<not> \<bar>x\<bar> \<le> 1 / 2 ^ 1075" for x
  proof -
    define p where "p = (2 :: rat) ^ 1075"
    have "0 < p" unfolding p_def by (rule zero_less_power) simp
    then show ?thesis
      unfolding number_nonzero_def p_def [symmetric] by (simp add: field_simps not_le)
  qed
  then show ?thesis
    by (auto simp: truthy_def falsy_def split: option.splits json.splits)
qed

lemma parseLLMResponse_found:
  assumes "is_brace_substring s sub"
  shows "parseLLMResponse s =
     (case JSON_parse sub of
        None \<Rightarrow> Inl ParseError_InvalidJSON
      | Some response \<Rightarrow>
          if falsy (getProp response ''summary'') \<or> falsy (getProp response ''focus'')
          then Inl ParseError_Missing
          else (case (getProp response ''summary'', getProp response ''focus'') of
                  (Some (JString s), Some (JString f)) \<Rightarrow>
                    Inr \<lparr> summary = s, focus = f, otherKeys = [] \<rparr>
                | _ \<Rightarrow> Inl ParseError_NotStrings))"
proof -
  from assms have "match_first jsonPattern s = Some sub" by (simp add: match_first_json_iff)
  then show ?thesis
    by (cases "JSON_parse sub") (simp_all add: parseLLMResponse_def truthy_iff)
qed

lemma parseLLMResponse_NoJSON:
  "parseLLMResponse s = Inl ParseError_NoJSON \<longleftrightarrow> (\<forall>sub. \<not> is_brace_substring s sub)"
proof (cases "match_first jsonPattern s")
  case None
  then show ?thesis by (simp add: parseLLMResponse_def match_first_json_None [symmetric])
next
  case (Some sub)
  then have "is_brace_substring s sub" by (simp add: match_first_json_iff)
  moreover from Some have "parseLLMResponse s \<noteq> Inl ParseError_NoJSON"
    by (auto simp: parseLLMResponse_def split: option.splits json.splits)
  ultimately show ?thesis by blast
qed

lemma parseLLMResponse_kinds:
  assumes "is_brace_substring s sub"
  shows "parseLLMResponse s = Inl ParseError_InvalidJSON \<longleftrightarrow> JSON_parse sub = None"
    and "JSON_parse sub = Some obj \<Longrightarrow>
         (parseLLMResponse s = Inl ParseError_Missing \<longleftrightarrow>
            falsy (getProp obj ''summary'') \<or> falsy (getProp obj ''focus''))"
    and "JSON_parse sub = Some obj \<Longrightarrow>
         (parseLLMResponse s = Inl ParseError_NotStrings \<longleftrightarrow>
            \<not> falsy (getProp obj ''summary'') \<and> \<not> falsy (getProp obj ''focus'') \<and>
            \<not> (\<exists>a b. getProp obj ''summary'' = Some (JString a) \<and>
                      getProp obj ''focus'' = Some (JString b)))"
    and "JSON_parse sub = Some obj \<Longrightarrow> getProp obj ''summary'' = Some (JString a) \<Longrightarrow>
         getProp obj ''focus'' = Some (JString b) \<Longrightarrow> a \<noteq> [] \<Longrightarrow> b \<noteq> [] \<Longrightarrow>
         parseLLMResponse s = Inr \<lparr> summary = a, focus = b, otherKeys = [] \<rparr>"
proof -
  note f = parseLLMResponse_found [OF assms]
  show "parseLLMResponse s = Inl ParseError_InvalidJSON \<longleftrightarrow> JSON_parse sub = None"
    unfolding f by (auto split: option.splits json.splits)
  show "parseLLMResponse s = Inl ParseError_Missing \<longleftrightarrow>
      falsy (getProp obj ''summary'') \<or> falsy (getProp obj ''focus'')"
    if "JSON_parse sub = Some obj"
    unfolding f using that by (auto split: option.splits json.splits)
  show "parseLLMResponse s = Inl ParseError_NotStrings \<longleftrightarrow>
      \<not> falsy (getProp obj ''summary'') \<and> \<not> falsy (getProp obj ''focus'') \<and>
      \<not> (\<exists>a b. getProp obj ''summary'' = Some (JString a) \<and>
                getProp obj ''focus'' = Some (JString b))"
    if "JSON_parse sub = Some obj"
    unfolding f using that by (auto split: option.splits json.splits)
  show "parseLLMResponse s = Inr \<lparr> summary = a, focus = b, otherKeys = [] \<rparr>"
    if "JSON_parse sub = Some obj" "getProp obj ''summary'' = Some (JString a)"
       "getProp obj ''focus'' = Some (JString b)" "a \<noteq> []" "b \<noteq> []"
    unfolding f using that by (simp add: falsy_def)
qed

lemma parseLLMResponse_fails_iff:
  "(\<exists>e. parseLLMResponse s = Inl e) \<longleftrightarrow>
     (\<forall>sub. \<not> is_brace_substring s sub) \<or>
     (\<exists>sub. is_brace_substring s sub \<and>
        (JSON_parse sub = None \<or>
         (\<exists>obj. JSON_parse sub = Some obj \<and>
            \<not> (\<exists>a b. getProp obj ''summary'' = Some (JString a) \<and>
                      getProp obj ''focus'' = Some (JString b) \<and> a \<noteq> [] \<and> b \<noteq> []))))"
proof (cases "match_first jsonPattern s")
  case None
  then have "\<forall>sub. \<not> is_brace_substring s sub" by (simp add: match_first_json_None)
  with None show ?thesis by (simp add: parseLLMResponse_def)
next
  case (Some sub)
  then have sub: "is_brace_substring s sub" by (simp add: match_first_json_iff)
  then have u: "\<And>sub'. is_brace_substring s sub' \<longleftrightarrow> sub' = sub"
    using is_brace_substring_unique by blast
  show ?thesis
  proof (cases "JSON_parse sub")
    case None
    with Some sub show ?thesis by (auto simp: parseLLMResponse_def)
  next
    case (Some obj)
    have "(\<exists>e. parseLLMResponse s = Inl e) \<longleftrightarrow>
        \<not> (\<exists>a b. getProp obj ''summary'' = Some (JString a) \<and>
                  getProp obj ''focus'' = Some (JString b) \<and> a \<noteq> [] \<and> b \<noteq> [])"
      using \<open>match_first jsonPattern s = Some sub\<close> Some
      by (auto simp: parseLLMResponse_def truthy_def split: option.splits json.splits)
    with Some u show ?thesis by auto
  qed
qed

text \<open>
  Claim C3, as amended. \<open>parseLLMResponse\<close> fails exactly when the text has no \<open>{\<close> before a
  later \<open>}\<close> (no JSON found), or the text from the first \<open>{\<close> to the last \<open>}\<close> is not valid
  JSON (the error of \<open>JSON.parse\<close>), or the parsed object does not have a non-empty string
  as its \<open>summary\<close> and as its \<open>focus\<close>: a key that is missing or has a falsy value (the
  empty string, \<open>null\<close>, \<open>false\<close>, a number that is zero as a double) is reported as missing,
  and otherwise a value that is no string is reported as such. When both are non-empty
  strings, parsing succeeds and returns these two values, with no further key. The text
  is valid JSON when \<open>parse_value\<close> reads it to its end with some bound on the nesting.
\<close>

theorem parseLLMResponse_spec:
  "((\<exists>e. parseLLMResponse s = Inl e) \<longleftrightarrow>
     (\<forall>sub. \<not> is_brace_substring s sub) \<or>
     (\<exists>sub. is_brace_substring s sub \<and>
        (JSON_parse sub = None \<or>
         (\<exists>obj. JSON_parse sub = Some obj \<and>
            \<not> (\<exists>a b. getProp obj ''summary'' = Some (JString a) \<and>
                      getProp obj ''focus'' = Some (JString b) \<and> a \<noteq> [] \<and> b \<noteq> []))))) \<and>
   (is_brace_substring s sub \<and> JSON_parse sub = Some obj \<and>
    getProp obj ''summary'' = Some (JString a) \<and> getProp obj ''focus'' = Some (JString b) \<and>
    a \<noteq> [] \<and> b \<noteq> [] \<longrightarrow>
      parseLLMResponse s = Inr \<lparr> summary = a, focus = b, otherKeys = [] \<rparr>) \<and>
   (parseLLMResponse s = Inl ParseError_NoJSON \<longleftrightarrow> (\<forall>sub. \<not> is_brace_substring s sub)) \<and>
   (is_brace_substring s sub \<longrightarrow>
      (parseLLMResponse s = Inl ParseError_InvalidJSON \<longleftrightarrow> JSON_parse sub = None) \<and>
      (JSON_parse sub = Some obj \<longrightarrow>
         (parseLLMResponse s = Inl ParseError_Missing \<longleftrightarrow>
            falsy (getProp obj ''summary'') \<or> falsy (getProp obj ''focus'')) \<and>
         (parseLLMResponse s = Inl ParseError_NotStrings \<longleftrightarrow>
            \<not> falsy (getProp obj ''summary'') \<and> \<not> falsy (getProp obj ''focus'') \<and>
            \<not> (\<exists>a b. getProp obj ''summary'' = Some (JString a) \<and>
                      getProp obj ''focus'' = Some (JString b))))) \<and>
   (JSON_parse sub = Some obj \<longleftrightarrow> (\<exists>n r. parse_value n sub = Some (obj, r) \<and> skip_ws r = []))"
  using parseLLMResponse_fails_iff [of s] parseLLMResponse_NoJSON [of s] JSON_parse_fuel [of sub obj]
    parseLLMResponse_kinds(1) [of s sub] parseLLMResponse_kinds(2) [of s sub obj]
    parseLLMResponse_kinds(3) [of s sub obj] parseLLMResponse_kinds(4) [of s sub obj a b]
  by blast

lemma ex_json_empty_parse:
  "JSON_parse ex_json_empty = Some (JObject [(ustr ''summary'', JString []), (ustr ''focus'', JString (ustr ''x''))])"
  unfolding ex_json_empty_def ustr_def by code_simp

lemma ex_json_empty_brace: "is_brace_substring ex_json_empty ex_json_empty"
  unfolding is_brace_substring_def ex_json_empty_def
  by (rule exI [of _ "[]"], rule exI [of _ \<open>''"summary":"","focus":"x"''\<close>], rule exI [of _ "[]"]) simp

lemma ex_json_empty_props:
  "getProp (JObject [(ustr ''summary'', JString []), (ustr ''focus'', JString (ustr ''x''))]) ''summary'' = Some (JString [])"
  "getProp (JObject [(ustr ''summary'', JString []), (ustr ''focus'', JString (ustr ''x''))]) ''focus'' = Some (JString (ustr ''x''))"
  by (simp_all add: getProp_def ustr_def)

lemma ex_json_empty_fails: "parseLLMResponse ex_json_empty = Inl ParseError_Missing"
  using parseLLMResponse_kinds(2) [OF ex_json_empty_brace ex_json_empty_parse]
  by (simp add: ex_json_empty_props falsy_def)

text \<open>
  With the empty string the claim fails: the object has both keys and both values are
  strings, and \<open>parseLLMResponse\<close> raises "missing summary or focus".
\<close>

theorem parseLLMResponse_empty_string_counterexample:
  "\<not> (is_brace_substring ex_json_empty ex_json_empty \<and>
       JSON_parse ex_json_empty =
         Some (JObject [(ustr ''summary'', JString []), (ustr ''focus'', JString (ustr ''x''))]) \<and>
       getProp (JObject [(ustr ''summary'', JString []), (ustr ''focus'', JString (ustr ''x''))]) ''summary'' =
         Some (JString []) \<and>
       getProp (JObject [(ustr ''summary'', JString []), (ustr ''focus'', JString (ustr ''x''))]) ''focus'' =
         Some (JString (ustr ''x''))
       \<longrightarrow> parseLLMResponse ex_json_empty = Inr \<lparr> summary = [], focus = ustr ''x'', otherKeys = [] \<rparr>)"
  using ex_json_empty_brace ex_json_empty_parse ex_json_empty_fails ex_json_empty_props
  by simp

lemma ex_response_brace: "is_brace_substring ex_response ex_response_json"
  unfolding is_brace_substring_def ex_response_def ex_response_json_def
  by (rule exI [of _ "''Here you go: ''"],
      rule exI [of _ \<open>''"summary":"Good week.","focus":"Plan 15 minutes daily."''\<close>],
      rule exI [of _ "'' Bye''"]) simp

lemma ex_response_parse: "JSON_parse ex_response_json = Some ex_response_object"
  unfolding ex_response_json_def ex_response_object_def ustr_def by code_simp

lemma ex_response_props:
  "getProp ex_response_object ''summary'' = Some (JString (ustr ''Good week.''))"
  "getProp ex_response_object ''focus'' = Some (JString (ustr ''Plan 15 minutes daily.''))"
  by (simp_all add: getProp_def ex_response_object_def ustr_def)

lemma ex_escape_brace: "is_brace_substring ex_escape ex_escape"
  unfolding is_brace_substring_def ex_escape_def
  by (rule exI [of _ "[]"],
      rule exI [of _ \<open>''"summary":"'' @ [CHR 0x5C] @ ''u2603 Snow","focus":"x"''\<close>],
      rule exI [of _ "[]"]) simp

lemma ex_escape_parse:
  "JSON_parse ex_escape =
     Some (JObject [(ustr ''summary'', JString (9731 # ustr '' Snow'')), (ustr ''focus'', JString (ustr ''x''))])"
  unfolding ex_escape_def ustr_def by code_simp

lemma ex_tiny_brace: "is_brace_substring ex_tiny ex_tiny"
  unfolding is_brace_substring_def ex_tiny_def
  by (rule exI [of _ "[]"], rule exI [of _ \<open>''"summary":1e-400,"focus":"x"''\<close>], rule exI [of _ "[]"]) simp

lemma ex_tiny_parse:
  "JSON_parse ex_tiny =
     Some (JObject [(ustr ''summary'', JNumber (1 / 10 ^ 400)), (ustr ''focus'', JString (ustr ''x''))])"
  unfolding ex_tiny_def ustr_def by code_simp

lemma ex_tiny_falsy: "falsy (Some (JNumber (1 / 10 ^ 400)))"
proof -
  define p where "p = (2 :: rat) ^ 1075"
  define q where "q = (10 :: rat) ^ 400"
  have "(2 :: rat) ^ 1075 \<le> 2 ^ 1200" by (rule power_increasing) simp_all
  also have "(2 :: rat) ^ 1200 = (2 ^ 3) ^ 400" unfolding power_mult [symmetric] by simp
  also have "\<dots> \<le> 10 ^ 400" by (rule power_mono) simp_all
  finally have pq: "p \<le> q" unfolding p_def q_def .
  have p: "0 < p" unfolding p_def by (rule zero_less_power) simp
  with pq have "\<bar>1 / q\<bar> \<le> 1 / p" by (simp add: frac_le)
  then show ?thesis unfolding falsy_def p_def q_def by blast
qed

theorem parseLLMResponse_spec_witness:
  "is_brace_substring ex_response ex_response_json \<and>
   JSON_parse ex_response_json = Some ex_response_object \<and>
   parseLLMResponse ex_response =
     Inr \<lparr> summary = ustr ''Good week.'', focus = ustr ''Plan 15 minutes daily.'', otherKeys = [] \<rparr> \<and>
   parseLLMResponse ex_escape =
     Inr \<lparr> summary = 9731 # ustr '' Snow'', focus = ustr ''x'', otherKeys = [] \<rparr> \<and>
   parseLLMResponse ex_tiny = Inl ParseError_Missing \<and>
   parseLLMResponse ''I cannot help with that.'' = Inl ParseError_NoJSON"
proof -
  from parseLLMResponse_spec [of ex_response ex_response_json ex_response_object
      "ustr ''Good week.''" "ustr ''Plan 15 minutes daily.''"]
    ex_response_brace ex_response_parse ex_response_props
  have 1: "parseLLMResponse ex_response =
     Inr \<lparr> summary = ustr ''Good week.'', focus = ustr ''Plan 15 minutes daily.'', otherKeys = [] \<rparr>"
    by (simp add: ustr_def)
  from parseLLMResponse_spec [of ex_escape ex_escape
      "JObject [(ustr ''summary'', JString (9731 # ustr '' Snow'')), (ustr ''focus'', JString (ustr ''x''))]"
      "9731 # ustr '' Snow''" "ustr ''x''"]
    ex_escape_brace ex_escape_parse
  have 2: "parseLLMResponse ex_escape =
     Inr \<lparr> summary = 9731 # ustr '' Snow'', focus = ustr ''x'', otherKeys = [] \<rparr>"
    by (simp add: getProp_def ustr_def)
  from parseLLMResponse_spec [of ex_tiny ex_tiny
      "JObject [(ustr ''summary'', JNumber (1 / 10 ^ 400)), (ustr ''focus'', JString (ustr ''x''))]"]
    ex_tiny_brace ex_tiny_parse ex_tiny_falsy
  have 3: "parseLLMResponse ex_tiny = Inl ParseError_Missing"
    by (simp add: getProp_def ustr_def)
  have "\<forall>sub. \<not> is_brace_substring ''I cannot help with that.'' sub"
    by (intro allI no_brace_substring) simp
  with parseLLMResponse_spec [of "''I cannot help with that.''"]
  have 4: "parseLLMResponse ''I cannot help with that.'' = Inl ParseError_NoJSON" by blast
  from 1 2 3 4 ex_response_brace ex_response_parse show ?thesis by simp
qed

section \<open>The dates that toISODate prints\<close>

lemma isDigit_digit_char: "isDigit (digit_char n)"
proof -
  have "\<forall>k \<in> {..<10::nat}. isDigit (''0123456789'' ! k)"
    by (simp add: lessThan_nat_numeral lessThan_Suc isDigit_def inRange_def)
  moreover have "n mod 10 \<in> {..<10}" by simp
  ultimately show ?thesis unfolding digit_char_def by blast
qed

lemma show_nat_digits: "list_all isDigit (show_nat n)"
proof (induction n rule: show_nat.induct)
  case (1 n)
  show ?case
  proof (cases "n < 10")
    case True
    then show ?thesis by (simp add: show_nat_small isDigit_digit_char)
  next
    case False
    with 1 show ?thesis by (simp add: show_nat_large isDigit_digit_char)
  qed
qed

lemma length_show_nat_100: "n < 100 \<Longrightarrow> length (show_nat n) \<le> 2"
  by (cases "n < 10") (simp_all add: show_nat_small show_nat_large)

lemma length_show_nat_1000: "n < 1000 \<Longrightarrow> length (show_nat n) \<le> 3"
proof (cases "n < 10")
  case False
  assume "n < 1000"
  then have "n div 10 < 100" by simp
  from length_show_nat_100 [OF this] False show ?thesis by (simp add: show_nat_large)
qed (simp add: show_nat_small)

lemma length_show_nat_10000: "n < 10000 \<Longrightarrow> length (show_nat n) \<le> 4"
proof (cases "n < 10")
  case False
  assume "n < 10000"
  then have "n div 10 < 1000" by simp
  from length_show_nat_1000 [OF this] False show ?thesis by (simp add: show_nat_large)
qed (simp add: show_nat_small)

lemma pad_nat_shape:
  "length (show_nat n) \<le> w \<Longrightarrow> length (pad_nat w n) = w \<and> list_all isDigit (pad_nat w n)"
proof -
  have "isDigit CHR ''0''" by (simp add: isDigit_def inRange_def)
  then have "list_all isDigit (replicate k CHR ''0'')" for k by (simp add: list_all_iff)
  then show "length (show_nat n) \<le> w \<Longrightarrow> ?thesis"
    by (simp add: pad_nat_def show_nat_digits)
qed

lemma iso_shapeI:
  assumes "length Y = 4" "length M = 2" "length D = 2"
      and "list_all isDigit Y" "list_all isDigit M" "list_all isDigit D"
  shows "iso_shape (Y @ ''-'' @ M @ ''-'' @ D)"
proof -
  from assms(1) obtain d0 d1 d2 d3 where Y: "Y = [d0, d1, d2, d3]"
    by (auto simp: length_Suc_conv eval_nat_numeral)
  from assms(2) obtain d4 d5 where M: "M = [d4, d5]"
    by (auto simp: length_Suc_conv eval_nat_numeral)
  from assms(3) obtain d6 d7 where D: "D = [d6, d7]"
    by (auto simp: length_Suc_conv eval_nat_numeral)
  from assms(4-6) Y M D show ?thesis
    unfolding iso_shape_def by auto
qed

lemma toISODate_shape:
  assumes "0 \<le> utcYear t" "utcYear t \<le> 9999"
  shows "iso_shape (toISODate t)"
proof -
  obtain y m d where c: "civil_from_days (t div msPerDay) = (y, m, d)"
    by (cases "civil_from_days (t div msPerDay)")
  with civil_from_days_bounds [of "t div msPerDay"] have b: "1 \<le> m" "m \<le> 12" "1 \<le> d" "d \<le> 31"
    by simp_all
  from c assms have y: "0 \<le> y" "y \<le> 9999" by (simp_all add: utcYear_def)
  have Y: "length (pad_nat 4 (nat y)) = 4 \<and> list_all isDigit (pad_nat 4 (nat y))"
    using y by (intro pad_nat_shape length_show_nat_10000) simp
  have M: "length (pad_nat 2 (nat m)) = 2 \<and> list_all isDigit (pad_nat 2 (nat m))"
    using b by (intro pad_nat_shape length_show_nat_100) simp
  have D: "length (pad_nat 2 (nat d)) = 2 \<and> list_all isDigit (pad_nat 2 (nat d))"
    using b by (intro pad_nat_shape length_show_nat_100) simp
  have "toISODate t = pad_nat 4 (nat y) @ ''-'' @ pad_nat 2 (nat m) @ ''-'' @ pad_nat 2 (nat d)"
    using c y by (simp add: toISODate_def)
  with Y M D show ?thesis using iso_shapeI by metis
qed

section \<open>The aggregates of a week\<close>

lemma missingDaysLoop_eq:
  "missingDaysLoop tz k i weekStart entryDates acc =
     acc @ filter (\<lambda>iso. iso \<notin> set entryDates)
             (map (\<lambda>j. toISODate (addDays tz weekStart (int j))) [i..<i + k])"
proof (induction k arbitrary: i acc)
  case 0
  show ?case by simp
next
  case (Suc k)
  have "[i..<i + Suc k] = i # [Suc i..<Suc i + k]" by (simp add: upt_rec)
  then show ?case by (simp add: Suc.IH Let_def)
qed

lemma computeMissingDays_eq:
  "computeMissingDays tz weekStart weekEntries =
     filter (\<lambda>iso. iso \<notin> set (map (\<lambda>e. toISODate (date e)) weekEntries))
       (map (\<lambda>j. toISODate (addDays tz weekStart (int j))) [0..<7])"
  by (simp add: computeMissingDays_def missingDaysLoop_eq del: upt_Suc)

lemma foldl_sum: "foldl (\<lambda>sum r. sum + r) a rs = a + sum_list (rs :: int list)"
  by (induction rs arbitrary: a) simp_all

lemma js_round_bounds: "of_int (js_round x) \<le> x + 1 / 2 \<and> x - 1 / 2 < of_int (js_round x)"
  unfolding js_round_def by linarith

lemma computeAvgRating_rounded:
  assumes "rs \<noteq> []"
  defines "mean \<equiv> (of_int (sum_list rs) :: rat) / of_nat (length rs)"
  shows "computeAvgRating rs = of_int (js_round (mean * 100)) / 100"
    and "mean - 1 / 200 < computeAvgRating rs" and "computeAvgRating rs \<le> mean + 1 / 200"
proof -
  show 1: "computeAvgRating rs = of_int (js_round (mean * 100)) / 100"
    using assms(1) by (simp add: computeAvgRating_def foldl_sum mean_def)
  from js_round_bounds [of "mean * 100"]
  show "mean - 1 / 200 < computeAvgRating rs" "computeAvgRating rs \<le> mean + 1 / 200"
    unfolding 1 by (simp_all add: field_simps)
qed

lemma computeAvgRating_examples:
  "computeAvgRating [2, 1] = 3 / 2" "computeAvgRating [] = 0"
proof -
  have "\<lfloor>(301 :: rat) / 2\<rfloor> = 150" by (rule floor_unique) simp_all
  then show "computeAvgRating [2, 1] = 3 / 2" by (simp add: computeAvgRating_def js_round_def)
  show "computeAvgRating [] = 0" by (simp add: computeAvgRating_def)
qed

section \<open>summarizeWeek: the store after a call\<close>

lemma summarizeWeek_no_entries_eq:
  "getEntriesInRange s uid weekStart (addDays tz weekStart 6) = [] \<Longrightarrow>
   summarizeWeek tz beyond llm now s uid weekStart v =
     \<lparr> state = s, llmCalls = [], result = Inl NoEntriesError \<rparr>"
  by (simp add: summarizeWeek_def)

lemma summarizeWeek_run:
  assumes "getEntriesInRange s uid weekStart (addDays tz weekStart 6) \<noteq> []"
  shows "summarizeWeek tz beyond llm now s uid weekStart v =
     (case llm (weekPrompt tz s uid weekStart v) of
        Inl e \<Rightarrow> \<lparr> state = s, llmCalls = [weekPrompt tz s uid weekStart v], result = Inl e \<rparr>
      | Inr text \<Rightarrow>
          (case parseLLMResponse text of
             Inl e \<Rightarrow> \<lparr> state = s, llmCalls = [weekPrompt tz s uid weekStart v], result = Inl e \<rparr>
           | Inr r \<Rightarrow>
               (case validateParsed tz beyond r weekStart of
                  Inl e \<Rightarrow> \<lparr> state = s, llmCalls = [weekPrompt tz s uid weekStart v], result = Inl e \<rparr>
                | Inr _ \<Rightarrow>
                    \<lparr> state = s\<lparr> weeklySummaries :=
                           Map_set (getWeeklySummaryKey uid weekStart)
                             (weekSummaryOf tz s uid weekStart r now) (weeklySummaries s) \<rparr>,
                      llmCalls = [weekPrompt tz s uid weekStart v],
                      result = Inr (weekSummaryOf tz s uid weekStart r now) \<rparr>)))"
  using assms
  by (simp add: summarizeWeek_def weekPrompt_def weekSummaryOf_def Let_def
      split: sum.splits)

lemma summarizeWeek_failure:
  "result (summarizeWeek tz beyond llm now s uid weekStart v) = Inl e \<Longrightarrow>
   state (summarizeWeek tz beyond llm now s uid weekStart v) = s"
proof (cases "getEntriesInRange s uid weekStart (addDays tz weekStart 6) = []")
  case True
  then show ?thesis by (simp add: summarizeWeek_no_entries_eq)
next
  case False
  assume "result (summarizeWeek tz beyond llm now s uid weekStart v) = Inl e"
  then show ?thesis
    unfolding summarizeWeek_run [OF False] by (auto split: sum.splits)
qed

lemma summarizeWeek_success:
  assumes "result (summarizeWeek tz beyond llm now s uid weekStart v) = Inr w"
  shows "getEntriesInRange s uid weekStart (addDays tz weekStart 6) \<noteq> [] \<and>
         (\<exists>text r. llm (weekPrompt tz s uid weekStart v) = Inr text \<and> parseLLMResponse text = Inr r \<and>
            validateParsed tz beyond r weekStart = Inr () \<and> w = weekSummaryOf tz s uid weekStart r now) \<and>
         llmCalls (summarizeWeek tz beyond llm now s uid weekStart v) = [weekPrompt tz s uid weekStart v] \<and>
         state (summarizeWeek tz beyond llm now s uid weekStart v) =
           s\<lparr> weeklySummaries := Map_set (getWeeklySummaryKey uid weekStart) w (weeklySummaries s) \<rparr>"
proof (cases "getEntriesInRange s uid weekStart (addDays tz weekStart 6) = []")
  case True
  with assms show ?thesis by (simp add: summarizeWeek_no_entries_eq)
next
  case False
  from assms show ?thesis
    unfolding summarizeWeek_run [OF False] using False by (auto split: sum.splits)
qed

lemma validateLLMOutput_fails_iff:
  "validateLLMOutput tz r weekStart = Inl e \<longleftrightarrow>
     validateV1_ShapeAndLimits r = Inl e \<or>
     (validateV1_ShapeAndLimits r = Inr () \<and> validateV2_WindowAndLinks tz r weekStart = Inl e) \<or>
     (validateV1_ShapeAndLimits r = Inr () \<and> validateV2_WindowAndLinks tz r weekStart = Inr () \<and>
      validateV3_Actionability r = Inl e)"
  by (auto simp: validateLLMOutput_def split: sum.splits)

text \<open>
  Claim C1. When the service has returned a text and \<open>summarizeWeek\<close> fails at
  \<open>parseLLMResponse\<close> or at a validator (V1, V2 and V3 run in this order and the first
  failure is raised), the error is raised and the store is what it was: no summary is
  written and every stored summary reads as before. The same holds of every call that
  raises an error.
\<close>

theorem summarizeWeek_failure_frame:
  assumes "llmCalls (summarizeWeek tz beyond llm now s uid weekStart v) = [p]"
      and "llm p = Inr text"
      and "parseLLMResponse text = Inl e \<or>
           (\<exists>r. parseLLMResponse text = Inr r \<and> validateParsed tz beyond r weekStart = Inl e) \<or>
           (\<exists>r r'. parseLLMResponse text = Inr r \<and> narrow r = Some r' \<and>
              (validateV1_ShapeAndLimits r' = Inl e \<or>
               validateV1_ShapeAndLimits r' = Inr () \<and> validateV2_WindowAndLinks tz r' weekStart = Inl e \<or>
               validateV1_ShapeAndLimits r' = Inr () \<and> validateV2_WindowAndLinks tz r' weekStart = Inr () \<and>
                 validateV3_Actionability r' = Inl e))"
  shows "result (summarizeWeek tz beyond llm now s uid weekStart v) = Inl e \<and>
         state (summarizeWeek tz beyond llm now s uid weekStart v) = s \<and>
         weeklySummaries (state (summarizeWeek tz beyond llm now s uid weekStart v)) = weeklySummaries s \<and>
         getWeeklySummary (state (summarizeWeek tz beyond llm now s uid weekStart v)) uid' weekStart' =
           getWeeklySummary s uid' weekStart' \<and>
         (\<forall>tz' beyond' llm' now' uid'' weekStart'' v' e'.
            result (summarizeWeek tz' beyond' llm' now' s uid'' weekStart'' v') = Inl e' \<longrightarrow>
            state (summarizeWeek tz' beyond' llm' now' s uid'' weekStart'' v') = s)"
proof -
  have ne: "getEntriesInRange s uid weekStart (addDays tz weekStart 6) \<noteq> []"
    using assms(1) by (auto simp: summarizeWeek_no_entries_eq)
  have p: "p = weekPrompt tz s uid weekStart v"
    using assms(1) unfolding summarizeWeek_run [OF ne] by (auto split: sum.splits)
  have f: "parseLLMResponse text = Inl e \<or>
           (\<exists>r. parseLLMResponse text = Inr r \<and> validateParsed tz beyond r weekStart = Inl e)"
    using assms(3) by (auto simp: validateParsed_def validateLLMOutput_fails_iff)
  have "result (summarizeWeek tz beyond llm now s uid weekStart v) = Inl e"
    using assms(2) f unfolding summarizeWeek_run [OF ne] p by (auto split: sum.splits)
  with summarizeWeek_failure [OF this] summarizeWeek_failure show ?thesis by simp
qed

text \<open>
  Claim C4. When no entry of the user has its date from \<open>weekStart\<close> to \<open>weekEnd\<close>, the time
  6 local calendar days after \<open>weekStart\<close>, \<open>summarizeWeek\<close> raises the no-entries error,
  sends no request to the service and leaves the store as it was.
\<close>

theorem summarizeWeek_no_entries:
  assumes "\<forall>e \<in> set (Map_values (entries s)).
             userId e = uid \<longrightarrow> \<not> (weekStart \<le> date e \<and> date e \<le> addDays tz weekStart 6)"
  shows "result (summarizeWeek tz beyond llm now s uid weekStart v) = Inl NoEntriesError \<and>
         llmCalls (summarizeWeek tz beyond llm now s uid weekStart v) = [] \<and>
         state (summarizeWeek tz beyond llm now s uid weekStart v) = s \<and>
         addDays tz weekStart 6 = UTC tz (LocalTime tz weekStart + 6 * msPerDay)"
proof -
  have "filter (\<lambda>e. userId e = uid \<and> date e \<ge> weekStart \<and> date e \<le> addDays tz weekStart 6)
          (Map_values (entries s)) = []"
    using assms by (auto simp: filter_empty_conv)
  then have "getEntriesInRange s uid weekStart (addDays tz weekStart 6) = []"
    by (simp add: getEntriesInRange_def)
  then show ?thesis by (simp add: summarizeWeek_no_entries_eq addDays_eq)
qed

section \<open>One summary per key\<close>

lemma createEntry_summaries: "weeklySummaries (fst (createEntry s uid d g dt p tp r)) = weeklySummaries s"
  by (simp add: createEntry_def Let_def)

lemma editEntry_summaries: "weeklySummaries (fst (editEntry s entryId u)) = weeklySummaries s"
  by (simp add: editEntry_def split: option.splits)

lemma deleteEntry_summaries: "weeklySummaries (fst (deleteEntry s entryId)) = weeklySummaries s"
  by (simp add: deleteEntry_def split: option.splits)

lemma summarizeWeek_state_cases:
  "state (summarizeWeek tz beyond llm now s uid weekStart v) = s \<or>
   (\<exists>w. state (summarizeWeek tz beyond llm now s uid weekStart v) =
      s\<lparr> weeklySummaries := Map_set (getWeeklySummaryKey uid weekStart) w (weeklySummaries s) \<rparr>)"
proof (cases "result (summarizeWeek tz beyond llm now s uid weekStart v)")
  case (Inl e)
  then show ?thesis by (simp add: summarizeWeek_failure)
next
  case (Inr w)
  from summarizeWeek_success [OF this] show ?thesis by blast
qed

lemma reachable_distinct: "reachable s \<Longrightarrow> distinct (map fst (weeklySummaries s))"
proof (induction rule: reachable.induct)
  case init
  show ?case by (simp add: emptyJournal_def)
next
  case (create s uid d g dt p tp r)
  then show ?case by (simp add: createEntry_summaries)
next
  case (edit s entryId u)
  then show ?case by (simp add: editEntry_summaries)
next
  case (delete s entryId)
  then show ?case by (simp add: deleteEntry_summaries)
next
  case (summarize s tz beyond llm now uid weekStart v)
  with summarizeWeek_state_cases [of tz beyond llm now s uid weekStart v] show ?case
    by (auto simp: Map_set_def AList.distinct_update)
qed

lemma count_key_one:
  "distinct (map fst al) \<Longrightarrow> k \<in> set (map fst al) \<Longrightarrow> length (filter (\<lambda>kv. fst kv = k) al) = 1"
proof (induction al)
  case Nil
  then show ?case by simp
next
  case (Cons a al)
  show ?case
  proof (cases "fst a = k")
    case True
    with Cons.prems have "k \<notin> set (map fst al)" by auto
    then have "filter (\<lambda>kv. fst kv = k) al = []" by (auto simp: filter_empty_conv)
    with True show ?thesis by simp
  next
    case False
    with Cons show ?thesis by auto
  qed
qed

lemma count_key_le_one:
  "distinct (map fst al) \<Longrightarrow> length (filter (\<lambda>kv. fst kv = k) al) \<le> 1"
proof (cases "k \<in> set (map fst al)")
  case True
  assume "distinct (map fst al)"
  from count_key_one [OF this True] show ?thesis by simp
next
  case False
  then have "filter (\<lambda>kv. fst kv = k) al = []" by (auto simp: filter_empty_conv)
  then show ?thesis by simp
qed

lemma Map_set_props:
  assumes "distinct (map fst m)"
  shows "distinct (map fst (Map_set k v m))"
    and "length (filter (\<lambda>kv. fst kv = k) (Map_set k v m)) = 1"
    and "Map_get (Map_set k v m) k = Some v"
    and "k' \<noteq> k \<Longrightarrow> Map_get (Map_set k v m) k' = Map_get m k'"
    and "Map_has m k \<Longrightarrow> map fst (Map_set k v m) = map fst m"
proof -
  show d: "distinct (map fst (Map_set k v m))"
    using assms by (simp add: Map_set_def AList.distinct_update)
  have "k \<in> set (map fst (Map_set k v m))"
    by (simp add: Map_set_def AList.update_keys)
  with d show "length (filter (\<lambda>kv. fst kv = k) (Map_set k v m)) = 1"
    by (rule count_key_one)
  show "Map_get (Map_set k v m) k = Some v"
    by (simp add: Map_get_def Map_set_def AList.update_conv')
  show "k' \<noteq> k \<Longrightarrow> Map_get (Map_set k v m) k' = Map_get m k'"
    by (simp add: Map_get_def Map_set_def AList.update_conv')
  show "Map_has m k \<Longrightarrow> map fst (Map_set k v m) = map fst m"
    by (auto simp: Map_has_def Map_set_def AList.update_keys map_of_eq_None_iff)
qed

text \<open>
  Claim C5. In every store that the operations can reach, the summary store has at most
  one summary under a key. After a successful \<open>summarizeWeek\<close> call the summary store holds
  exactly one summary under the key of the user and the week start, the one the call
  returned, and \<open>getWeeklySummary\<close> returns it. So after two successful calls for the same
  user and week start, the second from the store \<open>s\<close> that the first left or from any store
  reached later, the key holds the second result alone; a call from a store that has the
  key adds no key.
\<close>

theorem summarizeWeek_one_per_key:
  assumes "reachable s0"
      and "result (summarizeWeek tz1 beyond1 llm1 now1 s0 uid weekStart v1) = Inr w1"
      and "s1 = state (summarizeWeek tz1 beyond1 llm1 now1 s0 uid weekStart v1)"
      and "reachable s"
      and "result (summarizeWeek tz2 beyond2 llm2 now2 s uid weekStart v2) = Inr w2"
      and "s2 = state (summarizeWeek tz2 beyond2 llm2 now2 s uid weekStart v2)"
  shows "length (filter (\<lambda>kv. fst kv = k) (weeklySummaries s0)) \<le> 1 \<and>
         length (filter (\<lambda>kv. fst kv = k) (weeklySummaries s1)) \<le> 1 \<and>
         length (filter (\<lambda>kv. fst kv = k) (weeklySummaries s)) \<le> 1 \<and>
         length (filter (\<lambda>kv. fst kv = k) (weeklySummaries s2)) \<le> 1 \<and>
         reachable s1 \<and> reachable s2 \<and>
         length (filter (\<lambda>kv. fst kv = getWeeklySummaryKey uid weekStart) (weeklySummaries s1)) = 1 \<and>
         getWeeklySummary s1 uid weekStart = Some w1 \<and>
         length (filter (\<lambda>kv. fst kv = getWeeklySummaryKey uid weekStart) (weeklySummaries s2)) = 1 \<and>
         getWeeklySummary s2 uid weekStart = Some w2 \<and>
         (Map_has (weeklySummaries s) (getWeeklySummaryKey uid weekStart) \<longrightarrow>
            map fst (weeklySummaries s2) = map fst (weeklySummaries s)) \<and>
         (s = s1 \<longrightarrow> map fst (weeklySummaries s2) = map fst (weeklySummaries s1))"
proof -
  let ?k = "getWeeklySummaryKey uid weekStart"
  have step: "distinct (map fst (weeklySummaries t')) \<and>
      length (filter (\<lambda>kv. fst kv = ?k) (weeklySummaries t')) = 1 \<and>
      getWeeklySummary t' uid weekStart = Some w \<and>
      (Map_has (weeklySummaries t) ?k \<longrightarrow> map fst (weeklySummaries t') = map fst (weeklySummaries t))"
    if d: "distinct (map fst (weeklySummaries t))"
      and r: "result (summarizeWeek tz beyond llm now t uid weekStart v) = Inr w"
      and t': "t' = state (summarizeWeek tz beyond llm now t uid weekStart v)"
    for t t' tz beyond llm now v w
  proof -
    from summarizeWeek_success [OF r] t'
    have e: "t' = t\<lparr> weeklySummaries := Map_set ?k w (weeklySummaries t) \<rparr>" by simp
    from Map_set_props(1,2,3) [OF d] Map_set_props(5) [OF d] show ?thesis
      unfolding e by (simp add: getWeeklySummary_def)
  qed
  have d0: "distinct (map fst (weeklySummaries s0))" using assms(1) by (rule reachable_distinct)
  have d: "distinct (map fst (weeklySummaries s))" using assms(4) by (rule reachable_distinct)
  note 1 = step [OF d0 assms(2,3)]
  note 2 = step [OF d assms(5,6)]
  have r1: "reachable s1" unfolding assms(3) using assms(1) by (rule reachable.summarize)
  have r2: "reachable s2" unfolding assms(6) using assms(4) by (rule reachable.summarize)
  have h1: "Map_has (weeklySummaries s1) ?k"
    using 1 by (simp add: getWeeklySummary_def Map_get_def Map_has_def)
  from 2 h1 have same: "s = s1 \<longrightarrow> map fst (weeklySummaries s2) = map fst (weeklySummaries s1)"
    by blast
  from count_key_le_one [OF d0, of k] count_key_le_one [OF d, of k]
    count_key_le_one [OF reachable_distinct [OF r1], of k]
    count_key_le_one [OF reachable_distinct [OF r2], of k] r1 r2 1 2 same
  show ?thesis by blast
qed

section \<open>The aggregates that summarizeWeek sends and stores\<close>

text \<open>
  For a non-empty list of entries, the average rating is the mean of the ratings rounded
  to two decimals (a multiple of 1/100 within 1/200 of the mean, a half rounded up). The
  missing days are the ISO dates of \<open>weekStart\<close> moved by 0 to 6 local calendar days, in this
  order, without those that are the ISO date of an entry; where the local offset to UTC
  is the same on these seven days, they are the dates of \<open>weekStart\<close> + 0, ..., 6 times 24
  hours, and each has the form \<open>YYYY-MM-DD\<close> when the week lies in the years 0000 to 9999.
  \<open>summarizeWeek\<close> sends and, on success, stores the number of the entries of the week with
  these two values.
\<close>

lemma summarizeWeek_aggregates:
  assumes "es \<noteq> []"
  shows "(\<exists>k :: int. computeAvgRating (map rating es) = of_int k / 100) \<and>
         of_int (sum_list (map rating es)) / of_nat (length es) - 1 / 200 < computeAvgRating (map rating es) \<and>
         computeAvgRating (map rating es) \<le> of_int (sum_list (map rating es)) / of_nat (length es) + 1 / 200 \<and>
         computeMissingDays tz weekStart es =
           filter (\<lambda>iso. iso \<notin> set (map (\<lambda>e. toISODate (date e)) es))
             (map (\<lambda>i. toISODate (addDays tz weekStart (int i))) [0..<7]) \<and>
         ((\<forall>i < 7. tzaLocal tz (weekStart + tzaUTC tz weekStart + int i * msPerDay) = tzaUTC tz weekStart) \<longrightarrow>
            computeMissingDays tz weekStart es =
              filter (\<lambda>iso. iso \<notin> set (map (\<lambda>e. toISODate (date e)) es))
                (map (\<lambda>i. toISODate (weekStart + int i * msPerDay)) [0..<7])) \<and>
         ((\<forall>i < 7. 0 \<le> utcYear (addDays tz weekStart (int i)) \<and> utcYear (addDays tz weekStart (int i)) \<le> 9999)
            \<longrightarrow> list_all iso_shape (computeMissingDays tz weekStart es)) \<and>
         (es = getEntriesInRange s uid weekStart (addDays tz weekStart 6) \<longrightarrow>
            (\<exists>p. llmCalls (summarizeWeek tz beyond llm now s uid weekStart v) = [p] \<and>
               p_entryCount p = length es \<and> p_avgRating p = computeAvgRating (map rating es) \<and>
               p_missingDays p = computeMissingDays tz weekStart es) \<and>
            (\<forall>w. result (summarizeWeek tz beyond llm now s uid weekStart v) = Inr w \<longrightarrow>
               ws_entryCount w = length es \<and> ws_avgRating w = computeAvgRating (map rating es) \<and>
               ws_missingDays w = computeMissingDays tz weekStart es))"
proof -
  have ne: "map rating es \<noteq> []" using assms by simp
  note avg = computeAvgRating_rounded [OF ne]
  have 1: "\<exists>k :: int. computeAvgRating (map rating es) = of_int k / 100"
    using avg(1) by blast
  have 2: "of_int (sum_list (map rating es)) / of_nat (length es) - 1 / 200 < computeAvgRating (map rating es)"
    "computeAvgRating (map rating es) \<le> of_int (sum_list (map rating es)) / of_nat (length es) + 1 / 200"
    using avg(2,3) by simp_all
  have 3: "list_all iso_shape (computeMissingDays tz weekStart es)"
    if "\<forall>i < 7. 0 \<le> utcYear (addDays tz weekStart (int i)) \<and> utcYear (addDays tz weekStart (int i)) \<le> 9999"
    unfolding computeMissingDays_eq list_all_iff
    using that by (auto intro!: toISODate_shape)
  have 5: "computeMissingDays tz weekStart es =
              filter (\<lambda>iso. iso \<notin> set (map (\<lambda>e. toISODate (date e)) es))
                (map (\<lambda>i. toISODate (weekStart + int i * msPerDay)) [0..<7])"
    if "\<forall>i < 7. tzaLocal tz (weekStart + tzaUTC tz weekStart + int i * msPerDay) = tzaUTC tz weekStart"
  proof -
    have "map (\<lambda>i. toISODate (addDays tz weekStart (int i))) [0..<7] =
        map (\<lambda>i. toISODate (weekStart + int i * msPerDay)) [0..<7]"
      using that by (intro map_cong refl) (simp add: addDays_same_offset)
    then show ?thesis unfolding computeMissingDays_eq by (simp only:)
  qed
  have 4: "(\<exists>p. llmCalls (summarizeWeek tz beyond llm now s uid weekStart v) = [p] \<and>
               p_entryCount p = length es \<and> p_avgRating p = computeAvgRating (map rating es) \<and>
               p_missingDays p = computeMissingDays tz weekStart es) \<and>
            (\<forall>w. result (summarizeWeek tz beyond llm now s uid weekStart v) = Inr w \<longrightarrow>
               ws_entryCount w = length es \<and> ws_avgRating w = computeAvgRating (map rating es) \<and>
               ws_missingDays w = computeMissingDays tz weekStart es)"
    if e: "es = getEntriesInRange s uid weekStart (addDays tz weekStart 6)"
  proof -
    have ne': "getEntriesInRange s uid weekStart (addDays tz weekStart 6) \<noteq> []" using assms e by simp
    have "llmCalls (summarizeWeek tz beyond llm now s uid weekStart v) = [weekPrompt tz s uid weekStart v]"
      unfolding summarizeWeek_run [OF ne'] by (auto split: sum.splits)
    moreover have "p_entryCount (weekPrompt tz s uid weekStart v) = length es \<and>
        p_avgRating (weekPrompt tz s uid weekStart v) = computeAvgRating (map rating es) \<and>
        p_missingDays (weekPrompt tz s uid weekStart v) = computeMissingDays tz weekStart es"
      using e by (simp add: weekPrompt_def createWeeklySummaryPrompt_def Let_def)
    moreover have "ws_entryCount w = length es \<and> ws_avgRating w = computeAvgRating (map rating es) \<and>
        ws_missingDays w = computeMissingDays tz weekStart es"
      if "result (summarizeWeek tz beyond llm now s uid weekStart v) = Inr w" for w
      using summarizeWeek_success [OF that] e by (auto simp: weekSummaryOf_def Let_def)
    ultimately show ?thesis by blast
  qed
  from 1 2 3 4 5 computeMissingDays_eq [of tz weekStart es]
  show ?thesis by blast
qed

section \<open>summarizeWeek on the example store\<close>

lemma narrow_ustr:
  "narrow \<lparr> summary = ustr a, focus = ustr b, otherKeys = ks \<rparr> =
     Some \<lparr> summary = a, focus = b, otherKeys = ks \<rparr>"
proof -
  have lt: "of_char c < (256 :: nat)" for c :: char
    using of_char_mod_256 [of c, where ?'a = nat]
    by (metis mod_less_divisor zero_less_numeral)
  show ?thesis by (auto simp: narrow_def ustr_def list_all_iff comp_def lt)
qed

lemma ex_good_V1: "validateV1_ShapeAndLimits ex_good_latin = Inr ()"
proof -
  have "\<not> blank ''Good week.''" "length (ws_words ''Good week.'') = 2"
    by (simp_all add: blank_def ws_words_def isSpace_def inRange_def)
  with ex_focus validateV1_iff [of ex_good_latin] show ?thesis by (simp add: ex_good_latin_def)
qed

lemma ex_good_V2: "validateV2_WindowAndLinks tz ex_good_latin weekStart = Inr ()"
  by (simp add: validateV2_WindowAndLinks_def ex_good_latin_def combinedText_def test_def
      urlPattern_def seqs_Cons seqs_Nil lit_i_def seq_assoc seq_eps chr_i_unfold seq_opt
      chr_i_def cls_def toLowerCase_char_def char_of_eq_iff iso_eval_rules)

lemma ex_good_V3: "validateV3_Actionability ex_good_latin = Inr ()"
proof -
  have 1: "occurs_word_ci ''plan'' ''Plan 15 minutes daily.''"
    unfolding occurs_word_ci_def
    by (rule_tac x = "[]" in exI, rule_tac x = "''Plan''" in exI,
        rule_tac x = "'' 15 minutes daily.''" in exI)
       (simp add: toLowerCase_def toLowerCase_char_def inRange_def char_of_eq_iff isWordHd_def isWordChar_def)
  have 2: "occurs_word_ci ''daily'' ''Plan 15 minutes daily.''"
    unfolding occurs_word_ci_def
    by (rule_tac x = "''Plan 15 minutes ''" in exI, rule_tac x = "''daily''" in exI,
        rule_tac x = "''.''" in exI)
       (simp add: toLowerCase_def toLowerCase_char_def inRange_def char_of_eq_iff isWordHd_def isWordChar_def)
  from 1 2 have "actionable unitWords ''Plan 15 minutes daily.''"
    by (auto simp: actionable_def imperativeVerbs_def frequencyWords_def)
  then show ?thesis by (simp add: validateV3_iff ex_good_latin_def)
qed

lemma ex_good_valid: "validateParsed tz beyond ex_good weekStart = Inr ()"
  by (simp add: validateParsed_def ex_good_def narrow_ustr validateLLMOutput_def
      ex_good_V1 [unfolded ex_good_latin_def] ex_good_V2 [unfolded ex_good_latin_def]
      ex_good_V3 [unfolded ex_good_latin_def])

lemma ex_response_parsed: "parseLLMResponse ex_response = Inr ex_good"
  using parseLLMResponse_kinds(4) [OF ex_response_brace ex_response_parse ex_response_props]
  by (simp add: ex_good_def ustr_def)

lemma ex_no_json: "parseLLMResponse ''I cannot help with that.'' = Inl ParseError_NoJSON"
  unfolding parseLLMResponse_NoJSON by (intro allI no_brace_substring) simp

lemma addDays_utc: "addDays ex_utc t i = t + i * msPerDay"
  by (rule addDays_same_offset) (simp add: ex_utc_def)

lemma ex_range:
  "getEntriesInRange ex_journal ''user-123'' 1759708800000 (addDays ex_utc 1759708800000 6) =
     [ex_entry1, ex_entry2]"
  by (simp add: getEntriesInRange_def ex_journal_def Map_values_def ex_entry1_def ex_entry2_def
      addDays_utc msPerDay_def)

lemma getEntriesInRange_summaries [simp]:
  "getEntriesInRange (s\<lparr> weeklySummaries := m \<rparr>) uid a b = getEntriesInRange s uid a b"
  by (simp add: getEntriesInRange_def)

lemma weekPrompt_summaries [simp]:
  "weekPrompt tz (s\<lparr> weeklySummaries := m \<rparr>) uid weekStart v = weekPrompt tz s uid weekStart v"
  by (simp add: weekPrompt_def)

lemma weekSummaryOf_summaries [simp]:
  "weekSummaryOf tz (s\<lparr> weeklySummaries := m \<rparr>) uid weekStart r now =
     weekSummaryOf tz s uid weekStart r now"
  by (simp add: weekSummaryOf_def)

lemma ex_summarize:
  "summarizeWeek ex_utc beyond ex_llm now ex_journal ''user-123'' 1759708800000 v =
     \<lparr> state = ex_journal\<lparr> weeklySummaries :=
           Map_set (getWeeklySummaryKey ''user-123'' 1759708800000)
             (weekSummaryOf ex_utc ex_journal ''user-123'' 1759708800000 ex_good now)
             (weeklySummaries ex_journal) \<rparr>,
       llmCalls = [weekPrompt ex_utc ex_journal ''user-123'' 1759708800000 v],
       result = Inr (weekSummaryOf ex_utc ex_journal ''user-123'' 1759708800000 ex_good now) \<rparr>"
  by (subst summarizeWeek_run) (simp_all add: ex_range ex_llm_def ex_response_parsed ex_good_valid)

lemma ex_summarized_eq:
  "ex_summarized = ex_journal\<lparr> weeklySummaries :=
       [(getWeeklySummaryKey ''user-123'' 1759708800000,
         weekSummaryOf ex_utc ex_journal ''user-123'' 1759708800000 ex_good 1000)] \<rparr>"
  by (simp add: ex_summarized_def ex_summarize Map_set_def) (simp add: ex_journal_def)

lemma ex_summarize_again:
  "summarizeWeek ex_utc beyond llm now ex_summarized ''user-123'' 1759708800000 v =
     (case llm (weekPrompt ex_utc ex_journal ''user-123'' 1759708800000 v) of
        Inl e \<Rightarrow> \<lparr> state = ex_summarized,
                   llmCalls = [weekPrompt ex_utc ex_journal ''user-123'' 1759708800000 v], result = Inl e \<rparr>
      | Inr text \<Rightarrow>
          (case parseLLMResponse text of
             Inl e \<Rightarrow> \<lparr> state = ex_summarized,
                        llmCalls = [weekPrompt ex_utc ex_journal ''user-123'' 1759708800000 v],
                        result = Inl e \<rparr>
           | Inr r \<Rightarrow>
               (case validateParsed ex_utc beyond r 1759708800000 of
                  Inl e \<Rightarrow> \<lparr> state = ex_summarized,
                             llmCalls = [weekPrompt ex_utc ex_journal ''user-123'' 1759708800000 v],
                             result = Inl e \<rparr>
                | Inr _ \<Rightarrow>
                    \<lparr> state = ex_summarized\<lparr> weeklySummaries :=
                           Map_set (getWeeklySummaryKey ''user-123'' 1759708800000)
                             (weekSummaryOf ex_utc ex_journal ''user-123'' 1759708800000 r now)
                             (weeklySummaries ex_summarized) \<rparr>,
                      llmCalls = [weekPrompt ex_utc ex_journal ''user-123'' 1759708800000 v],
                      result = Inr (weekSummaryOf ex_utc ex_journal ''user-123'' 1759708800000 r now) \<rparr>)))"
proof -
  have r: "getEntriesInRange ex_summarized ''user-123'' 1759708800000 (addDays ex_utc 1759708800000 6) =
      [ex_entry1, ex_entry2]"
    by (simp add: ex_summarized_eq ex_range)
  then have ne: "getEntriesInRange ex_summarized ''user-123'' 1759708800000
      (addDays ex_utc 1759708800000 6) \<noteq> []"
    by simp
  have p: "weekPrompt ex_utc ex_summarized ''user-123'' 1759708800000 v =
      weekPrompt ex_utc ex_journal ''user-123'' 1759708800000 v"
    by (simp add: ex_summarized_eq)
  have w: "weekSummaryOf ex_utc ex_summarized ''user-123'' 1759708800000 r now =
      weekSummaryOf ex_utc ex_journal ''user-123'' 1759708800000 r now" for r
    by (simp add: ex_summarized_eq)
  show ?thesis unfolding summarizeWeek_run [OF ne] p w by (rule refl)
qed

lemma ex_journal_reachable: "reachable ex_journal"
proof -
  have 1: "fst (createEntry emptyJournal ''user-123'' 1759708800000 ''Grateful for a productive day''
                 ''Went for a run'' ''Finished the LLM integration'' ''Start the presentation'' 2)
           = \<lparr> entries = [(''user-123:2025-10-06'', ex_entry1)], weeklySummaries = [], nextId = 2 \<rparr>"
    by (simp add: createEntry_def emptyJournal_def validRating_def getDateKey_def toISODate_ex1
        Map_has_def Map_set_def ex_entry1_def show_nat_small digit_char_def Let_def)
  have 2: "fst (createEntry \<lparr> entries = [(''user-123:2025-10-06'', ex_entry1)], weeklySummaries = [], nextId = 2 \<rparr>
                 ''user-123'' 1759795200000 ''Thankful for good weather''
                 ''Studied for midterm'' ''Helped a classmate'' ''Review notes'' 1)
           = ex_journal"
    by (simp add: createEntry_def validRating_def getDateKey_def toISODate_ex2
        Map_has_def Map_set_def ex_entry2_def ex_journal_def show_nat_small digit_char_def Let_def)
  have "reachable \<lparr> entries = [(''user-123:2025-10-06'', ex_entry1)], weeklySummaries = [], nextId = 2 \<rparr>"
    using reachable.create [OF reachable.init] unfolding 1 [symmetric] .
  from reachable.create [OF this] show ?thesis unfolding 2 [symmetric] .
qed

theorem summarizeWeek_failure_frame_witness:
  "parseLLMResponse ''I cannot help with that.'' = Inl ParseError_NoJSON \<and>
   result (summarizeWeek ex_utc ex_beyond ex_llm_no_json 2000 ex_summarized ''user-123'' 1759708800000 Base) =
     Inl ParseError_NoJSON \<and>
   state (summarizeWeek ex_utc ex_beyond ex_llm_no_json 2000 ex_summarized ''user-123'' 1759708800000 Base) =
     ex_summarized \<and>
   getWeeklySummary
       (state (summarizeWeek ex_utc ex_beyond ex_llm_no_json 2000 ex_summarized ''user-123'' 1759708800000 Base))
       ''user-123'' 1759708800000 =
     Some (weekSummaryOf ex_utc ex_journal ''user-123'' 1759708800000 ex_good 1000)"
proof -
  have calls: "llmCalls (summarizeWeek ex_utc ex_beyond ex_llm_no_json 2000 ex_summarized ''user-123''
        1759708800000 Base) =
      [weekPrompt ex_utc ex_journal ''user-123'' 1759708800000 Base]"
    by (simp add: ex_summarize_again ex_llm_no_json_def ex_no_json)
  have llm: "ex_llm_no_json (weekPrompt ex_utc ex_journal ''user-123'' 1759708800000 Base) =
      Inr ''I cannot help with that.''"
    by (simp add: ex_llm_no_json_def)
  have before: "getWeeklySummary ex_summarized ''user-123'' 1759708800000 =
      Some (weekSummaryOf ex_utc ex_journal ''user-123'' 1759708800000 ex_good 1000)"
    by (simp add: getWeeklySummary_def ex_summarized_eq Map_get_def)
  from summarizeWeek_failure_frame [OF calls llm, of ParseError_NoJSON "''user-123''" 1759708800000]
    ex_no_json before
  show ?thesis by simp
qed

theorem summarizeWeek_no_entries_witness:
  "result (summarizeWeek ex_utc ex_beyond ex_llm 1000 ex_journal ''nonexistent-user'' 1759708800000 Base) =
     Inl NoEntriesError \<and>
   llmCalls (summarizeWeek ex_utc ex_beyond ex_llm 1000 ex_journal ''nonexistent-user'' 1759708800000 Base) = [] \<and>
   state (summarizeWeek ex_utc ex_beyond ex_llm 1000 ex_journal ''nonexistent-user'' 1759708800000 Base) =
     ex_journal \<and>
   map userId (Map_values (entries ex_journal)) = [''user-123'', ''user-123'']"
proof -
  have u: "map userId (Map_values (entries ex_journal)) = [''user-123'', ''user-123'']"
    by (simp add: ex_journal_def Map_values_def ex_entry1_def ex_entry2_def)
  have "\<forall>e \<in> set (Map_values (entries ex_journal)).
      userId e = ''nonexistent-user'' \<longrightarrow>
      \<not> (1759708800000 \<le> date e \<and> date e \<le> addDays ex_utc 1759708800000 6)"
    by (simp add: ex_journal_def Map_values_def ex_entry1_def ex_entry2_def)
  from summarizeWeek_no_entries [OF this, of ex_beyond ex_llm 1000 Base] u show ?thesis by simp
qed

theorem summarizeWeek_one_per_key_witness:
  "reachable ex_journal \<and> reachable ex_summarized \<and>
   result (summarizeWeek ex_utc ex_beyond ex_llm 1000 ex_journal ''user-123'' 1759708800000 Base) =
     Inr (weekSummaryOf ex_utc ex_journal ''user-123'' 1759708800000 ex_good 1000) \<and>
   result (summarizeWeek ex_utc ex_beyond ex_llm 2000 ex_summarized ''user-123'' 1759708800000 Base) =
     Inr (weekSummaryOf ex_utc ex_journal ''user-123'' 1759708800000 ex_good 2000) \<and>
   length (filter (\<lambda>kv. fst kv = getWeeklySummaryKey ''user-123'' 1759708800000)
     (weeklySummaries
        (state (summarizeWeek ex_utc ex_beyond ex_llm 2000 ex_summarized ''user-123'' 1759708800000 Base)))) = 1 \<and>
   getWeeklySummary
       (state (summarizeWeek ex_utc ex_beyond ex_llm 2000 ex_summarized ''user-123'' 1759708800000 Base))
       ''user-123'' 1759708800000 =
     Some (weekSummaryOf ex_utc ex_journal ''user-123'' 1759708800000 ex_good 2000) \<and>
   ws_generatedAt (weekSummaryOf ex_utc ex_journal ''user-123'' 1759708800000 ex_good 2000) = 2000"
proof -
  have r1: "result (summarizeWeek ex_utc ex_beyond ex_llm 1000 ex_journal ''user-123'' 1759708800000 Base) =
      Inr (weekSummaryOf ex_utc ex_journal ''user-123'' 1759708800000 ex_good 1000)"
    by (simp add: ex_summarize)
  have r2: "result (summarizeWeek ex_utc ex_beyond ex_llm 2000 ex_summarized ''user-123'' 1759708800000 Base) =
      Inr (weekSummaryOf ex_utc ex_journal ''user-123'' 1759708800000 ex_good 2000)"
    by (simp add: ex_summarize_again ex_llm_def ex_response_parsed ex_good_valid)
  have g: "ws_generatedAt (weekSummaryOf ex_utc ex_journal ''user-123'' 1759708800000 ex_good 2000) = 2000"
    by (simp add: weekSummaryOf_def Let_def)
  have rs: "reachable ex_summarized"
    unfolding ex_summarized_def using ex_journal_reachable by (rule reachable.summarize)
  from summarizeWeek_one_per_key [OF ex_journal_reachable r1 ex_summarized_def rs r2 refl]
    ex_journal_reachable rs r1 r2 g
  show ?thesis by simp
qed

section \<open>Keys of the response beyond summary and focus\<close>

lemma ex_extra_brace: "is_brace_substring ex_extra_response ex_extra_response"
  unfolding is_brace_substring_def ex_extra_response_def
  by (rule exI [of _ "[]"],
      rule exI [of _ \<open>''"summary":"Good week.","focus":"Plan 15 minutes daily.","mood":"great"''\<close>],
      rule exI [of _ "[]"]) simp

lemma ex_extra_parse: "JSON_parse ex_extra_response = Some ex_extra_object"
  unfolding ex_extra_response_def ex_extra_object_def ustr_def by code_simp

lemma ex_extra_props:
  "getProp ex_extra_object ''summary'' = Some (JString (ustr ''Good week.''))"
  "getProp ex_extra_object ''focus'' = Some (JString (ustr ''Plan 15 minutes daily.''))"
  "getProp ex_extra_object ''mood'' = Some (JString (ustr ''great''))"
  by (simp_all add: getProp_def ex_extra_object_def ustr_def)

lemma ex_extra_parsed: "parseLLMResponse ex_extra_response = Inr ex_good"
  using parseLLMResponse_kinds(4) [OF ex_extra_brace ex_extra_parse ex_extra_props(1,2)]
  by (simp add: ex_good_def ustr_def)

lemma V1_extra_key:
  "validateV1_ShapeAndLimits (ex_good_latin\<lparr> otherKeys := [''mood''] \<rparr>) =
     Inl (ShapeError_ExtraKeys [''mood''])"
  by (simp add: validateV1_ShapeAndLimits_def ex_good_latin_def Let_def allowedKeys_def)

lemma ex_summarize_extra:
  "result (summarizeWeek ex_utc ex_beyond ex_llm_extra 1000 ex_journal ''user-123'' 1759708800000 Base) =
     Inr (weekSummaryOf ex_utc ex_journal ''user-123'' 1759708800000 ex_good 1000)"
  by (subst summarizeWeek_run) (simp_all add: ex_range ex_llm_extra_def ex_extra_parsed ex_good_valid)

text \<open>
  Claim C2 does not hold of the code. The response
  \<open>{"summary":"Good week.","focus":"Plan 15 minutes daily.","mood":"great"}\<close> has the key
  \<open>mood\<close> beside summary and focus. \<open>parseLLMResponse\<close> returns a new object with the two keys
  summary and focus only, the validators accept it, and \<open>summarizeWeek\<close> stores and returns
  a summary: the check of V1 for further keys, which rejects the same result with the
  key \<open>mood\<close>, never sees that key.
\<close>

theorem parseLLMResponse_drops_extra_keys:
  "JSON_parse ex_extra_response = Some ex_extra_object \<and>
   getProp ex_extra_object ''mood'' = Some (JString (ustr ''great'')) \<and>
   parseLLMResponse ex_extra_response = Inr ex_good \<and> otherKeys ex_good = [] \<and>
   narrow ex_good = Some ex_good_latin \<and>
   validateV1_ShapeAndLimits ex_good_latin = Inr () \<and>
   validateV1_ShapeAndLimits (ex_good_latin\<lparr> otherKeys := [''mood''] \<rparr>) =
     Inl (ShapeError_ExtraKeys [''mood'']) \<and>
   result (summarizeWeek ex_utc ex_beyond ex_llm_extra 1000 ex_journal ''user-123'' 1759708800000 Base) =
     Inr (weekSummaryOf ex_utc ex_journal ''user-123'' 1759708800000 ex_good 1000)"
  using ex_extra_parse ex_extra_props(3) ex_extra_parsed ex_good_V1 V1_extra_key ex_summarize_extra
  by (simp add: ex_good_def ex_good_latin_def narrow_ustr)

theorem parseLLMResponse_drops_extra_keys_witness:
  "parseLLMResponse ex_extra_response = Inr ex_good \<and>
   validateParsed ex_utc ex_beyond ex_good 1759708800000 = Inr () \<and>
   getWeeklySummary
     (state (summarizeWeek ex_utc ex_beyond ex_llm_extra 1000 ex_journal ''user-123'' 1759708800000 Base))
     ''user-123'' 1759708800000 =
     Some (weekSummaryOf ex_utc ex_journal ''user-123'' 1759708800000 ex_good 1000)"
proof -
  from parseLLMResponse_drops_extra_keys
  have r: "result (summarizeWeek ex_utc ex_beyond ex_llm_extra 1000 ex_journal ''user-123''
        1759708800000 Base) =
      Inr (weekSummaryOf ex_utc ex_journal ''user-123'' 1759708800000 ex_good 1000)"
    and p: "parseLLMResponse ex_extra_response = Inr ex_good"
    by blast+
  from summarizeWeek_success [OF r]
  have "getWeeklySummary
     (state (summarizeWeek ex_utc ex_beyond ex_llm_extra 1000 ex_journal ''user-123'' 1759708800000 Base))
     ''user-123'' 1759708800000 =
     Some (weekSummaryOf ex_utc ex_journal ''user-123'' 1759708800000 ex_good 1000)"
    by (simp add: getWeeklySummary_def Map_get_def Map_set_def AList.update_conv')
  with p ex_good_valid show ?thesis by simp
qed

section \<open>The missing days across a change of the local offset\<close>

lemma civil_0308:
  "civil_from_days 20155 = (2025, 3, 8)" "civil_from_days 20156 = (2025, 3, 9)"
  "civil_from_days 20157 = (2025, 3, 10)" "civil_from_days 20158 = (2025, 3, 11)"
  "civil_from_days 20159 = (2025, 3, 12)" "civil_from_days 20160 = (2025, 3, 13)"
  unfolding civil_from_days_def Let_def by simp_all

lemma upt_7: "[0..<7] = [0, 1, 2, 3, 4, 5, 6]"
  by code_simp

lemma ex_new_york_days:
  "map (\<lambda>i. addDays ex_new_york 1741392000000 (int i)) [0..<7] =
     [1741392000000, 1741478400000, 1741561200000, 1741647600000, 1741734000000, 1741820400000,
      1741906800000]"
  unfolding upt_7 by (simp add: addDays_eq UTC_def LocalTime_def ex_new_york_def msPerDay_def)

lemma ex_new_york_dates:
  "map (\<lambda>i. toISODate (addDays ex_new_york 1741392000000 (int i))) [0..<7] =
     [''2025-03-08'', ''2025-03-09'', ''2025-03-09'', ''2025-03-10'', ''2025-03-11'', ''2025-03-12'',
      ''2025-03-13'']"
proof -
  have "map (\<lambda>i. toISODate (addDays ex_new_york 1741392000000 (int i))) [0..<7] =
      map toISODate (map (\<lambda>i. addDays ex_new_york 1741392000000 (int i)) [0..<7])"
    by (simp add: comp_def del: upt_Suc)
  also have "\<dots> = [''2025-03-08'', ''2025-03-09'', ''2025-03-09'', ''2025-03-10'', ''2025-03-11'',
      ''2025-03-12'', ''2025-03-13'']"
    unfolding ex_new_york_days by (simp add: iso_eval civil_0308)
  finally show ?thesis .
qed

lemma ex_utc_dates_0308:
  "map (\<lambda>i. toISODate (addDays ex_utc 1741392000000 (int i))) [0..<7] =
     [''2025-03-08'', ''2025-03-09'', ''2025-03-10'', ''2025-03-11'', ''2025-03-12'', ''2025-03-13'',
      ''2025-03-14'']"
proof -
  have "civil_from_days 20161 = (2025, 3, 14)" unfolding civil_from_days_def Let_def by simp
  then show ?thesis unfolding upt_7 by (simp add: addDays_utc iso_eval civil_0308)
qed

lemma ex_range_0308:
  "getEntriesInRange ex_journal_0308 ''user-123'' 1741392000000 (addDays ex_new_york 1741392000000 6) =
     [ex_entry_0308]"
  by (simp add: getEntriesInRange_def ex_journal_0308_def Map_values_def ex_entry_0308_def
      addDays_eq UTC_def LocalTime_def ex_new_york_def msPerDay_def)

text \<open>
  Claim C6 does not hold of the code where the local offset to UTC changes within the
  week. In the zone of New York the clocks go forward at 2025-03-09T07:00Z. For the week
  that starts at 2025-03-08T00:00Z, with one entry on 2025-03-08, the dates of the window
  without an entry are 2025-03-09 to 2025-03-14; the missing days that \<open>summarizeWeek\<close>
  computes, sends and stores have 2025-03-09 twice and do not have 2025-03-14, since
  the second and the third round of the loop both end on 2025-03-09 in UTC. In a zone
  without a change of offset the same call gives the six dates.
\<close>

theorem computeMissingDays_offset_change:
  "toISODate (date ex_entry_0308) = ''2025-03-08'' \<and>
   getEntriesInRange ex_journal_0308 ''user-123'' 1741392000000 (addDays ex_new_york 1741392000000 6) =
     [ex_entry_0308] \<and>
   computeMissingDays ex_new_york 1741392000000 [ex_entry_0308] =
     [''2025-03-09'', ''2025-03-09'', ''2025-03-10'', ''2025-03-11'', ''2025-03-12'', ''2025-03-13''] \<and>
   computeMissingDays ex_utc 1741392000000 [ex_entry_0308] =
     [''2025-03-09'', ''2025-03-10'', ''2025-03-11'', ''2025-03-12'', ''2025-03-13'', ''2025-03-14''] \<and>
   result (summarizeWeek ex_new_york ex_beyond ex_llm 1000 ex_journal_0308 ''user-123'' 1741392000000 Base) =
     Inr (weekSummaryOf ex_new_york ex_journal_0308 ''user-123'' 1741392000000 ex_good 1000) \<and>
   ws_missingDays (weekSummaryOf ex_new_york ex_journal_0308 ''user-123'' 1741392000000 ex_good 1000) =
     [''2025-03-09'', ''2025-03-09'', ''2025-03-10'', ''2025-03-11'', ''2025-03-12'', ''2025-03-13'']"
proof -
  have d: "toISODate (date ex_entry_0308) = ''2025-03-08''"
    by (simp add: ex_entry_0308_def iso_eval civil_0308)
  have ny: "computeMissingDays ex_new_york 1741392000000 [ex_entry_0308] =
     [''2025-03-09'', ''2025-03-09'', ''2025-03-10'', ''2025-03-11'', ''2025-03-12'', ''2025-03-13'']"
    unfolding computeMissingDays_eq ex_new_york_dates by (simp add: d)
  have utc: "computeMissingDays ex_utc 1741392000000 [ex_entry_0308] =
     [''2025-03-09'', ''2025-03-10'', ''2025-03-11'', ''2025-03-12'', ''2025-03-13'', ''2025-03-14'']"
    unfolding computeMissingDays_eq ex_utc_dates_0308 by (simp add: d)
  have r: "result (summarizeWeek ex_new_york ex_beyond ex_llm 1000 ex_journal_0308 ''user-123''
        1741392000000 Base) =
     Inr (weekSummaryOf ex_new_york ex_journal_0308 ''user-123'' 1741392000000 ex_good 1000)"
    by (subst summarizeWeek_run) (simp_all add: ex_range_0308 ex_llm_def ex_response_parsed ex_good_valid)
  have m: "ws_missingDays (weekSummaryOf ex_new_york ex_journal_0308 ''user-123'' 1741392000000 ex_good 1000) =
     [''2025-03-09'', ''2025-03-09'', ''2025-03-10'', ''2025-03-11'', ''2025-03-12'', ''2025-03-13'']"
    by (simp add: weekSummaryOf_def ex_range_0308 ny)
  from d ex_range_0308 ny utc r m show ?thesis by simp
qed

end
